theory Spec2Isabelle
  imports Main "HOL-Library.Word" "HOL-Library.Char_ord" "HOL-Library.List_Lexorder"
begin

section \<open>Data model of meta_store.go\<close>

text \<open>
  Go strings and byte slices are sequences of 8-bit bytes.  Both are modelled by HOL's
  \<open>string\<close> (a list of 8-bit \<open>char\<close>), so the conversions \<open>[]byte(s)\<close> and \<open>string(b)\<close> are
  the identity.  Byte strings are compared as \<open>bytes.Compare\<close> does: lexicographically on
  the unsigned byte values, a proper prefix being smaller.
\<close>

datatype error =
    ErrNoBucket
  | ErrObjectNotFound
  | ErrDuplicateObject
  | ErrUnauthorized
  | ErrForbidden
  | ErrKeyRequired
  | ErrKeyTooLarge
  | ErrGobDecode

record MetaLock =
  ID :: "64 word"
  Path :: string
  Owner :: string
  LockedAt :: string

text \<open>The value of \<open>var meta MetaLock\<close> before anything is assigned to it.\<close>

definition zeroMetaLock :: MetaLock where
  "zeroMetaLock = \<lparr>ID = 0, Path = [], Owner = [], LockedAt = []\<rparr>"

text \<open>
  \<open>MetaObject\<close> and \<open>RequestVars\<close> are declared outside meta_store.go; the fields are the
  ones this file reads and writes (\<open>Oid\<close>, \<open>Size\<close>, \<open>Existing\<close>; \<open>Oid\<close>, \<open>Size\<close>,
  \<open>Authorization\<close>); \<open>Size\<close> is an \<open>int64\<close>, a word of 64 bits here.  The request's fields
  carry the prefix \<open>v\<close>, the name of the parameter in the source, since record fields are
  global names in HOL.
\<close>

record MetaObject =
  Oid :: string
  Size :: "64 word"
  Existing :: bool

definition zeroMetaObject :: MetaObject where
  "zeroMetaObject = \<lparr>Oid = [], Size = 0, Existing = False\<rparr>"

record RequestVars =
  vOid :: string
  vSize :: "64 word"
  vAuthorization :: string

section \<open>The embedded key-value engine\<close>

text \<open>
  A stored value of a bucket that holds gob-encoded records is either the encoding of a
  record, written \<open>Gob x\<close>, or some other byte string \<open>Junk bs\<close> that does not decode.
  This is the round-trip law of the encoding, \<open>decode (encode x) = x\<close>, and nothing more:
  the bytes of an encoding never matter to the store, except that an encoding is never
  empty (gob always emits the type description).
\<close>

datatype 'a gob = Gob 'a | Junk string

text \<open>\<open>len(value) == 0\<close> for the result of \<open>Bucket.Get\<close>, which is nil for a missing key.\<close>

fun len_is_zero :: "'a gob option \<Rightarrow> bool" where
  "len_is_zero None = True"
| "len_is_zero (Some (Gob x)) = False"
| "len_is_zero (Some (Junk bs)) = (bs = [])"

text \<open>\<open>gob.NewDecoder(bytes.NewBuffer(value)).Decode(&meta)\<close>.\<close>

fun gob_Decode :: "'a gob option \<Rightarrow> error + 'a" where
  "gob_Decode (Some (Gob x)) = Inr x"
| "gob_Decode (Some (Junk bs)) = Inl ErrGobDecode"
| "gob_Decode None = Inl ErrGobDecode"

text \<open>
  A bucket is the ordered sequence of its key/value pairs (the leaves of the B+tree, in
  ascending key order) together with its sequence counter, a \<open>uint64\<close>.
\<close>

record 'v bucket =
  pairs :: "(string \<times> 'v) list"
  sequence :: "64 word"

definition empty_bucket :: "'v bucket" where
  "empty_bucket = \<lparr>pairs = [], sequence = 0\<rparr>"

definition bucket_Get :: "'v bucket \<Rightarrow> string \<Rightarrow> 'v option" where
  "bucket_Get b k = map_of (pairs b) k"

fun put_pair :: "string \<Rightarrow> 'v \<Rightarrow> (string \<times> 'v) list \<Rightarrow> (string \<times> 'v) list" where
  "put_pair k v [] = [(k, v)]"
| "put_pair k v ((k', v') # rest) =
     (if k < k' then (k, v) # (k', v') # rest
      else if k = k' then (k, v) # rest
      else (k', v') # put_pair k v rest)"

definition MaxKeySize :: nat where
  "MaxKeySize = 32768"

text \<open>
  \<open>Bucket.Put\<close> inside a writable transaction.  It refuses an empty key and a key longer
  than \<open>MaxKeySize\<close>.  (It also refuses a value longer than \<open>MaxValueSize\<close>, \<open>2^31 - 2\<close>
  bytes; the records of this store are taken to stay below that.)
\<close>

definition bucket_Put :: "'v bucket \<Rightarrow> string \<Rightarrow> 'v \<Rightarrow> error + 'v bucket" where
  "bucket_Put b k v =
     (if k = [] then Inl ErrKeyRequired
      else if length k > MaxKeySize then Inl ErrKeyTooLarge
      else Inr (b\<lparr>pairs := put_pair k v (pairs b)\<rparr>))"

text \<open>\<open>Bucket.Delete\<close> inside a writable transaction: a missing key is not an error.\<close>

definition bucket_Delete :: "'v bucket \<Rightarrow> string \<Rightarrow> 'v bucket" where
  "bucket_Delete b k = b\<lparr>pairs := filter (\<lambda>kv. fst kv \<noteq> k) (pairs b)\<rparr>"

text \<open>\<open>Bucket.NextSequence\<close>: \<open>b.bucket.sequence++\<close> on a \<open>uint64\<close>, which wraps around.\<close>

definition bucket_NextSequence :: "'v bucket \<Rightarrow> 64 word \<times> 'v bucket" where
  "bucket_NextSequence b = (sequence b + 1, b\<lparr>sequence := sequence b + 1\<rparr>)"

text \<open>
  \<open>Cursor.Seek\<close> moves to the first pair whose key is not below the sought key.  The
  cursor is the list of the pairs from its position on: the empty list is the nil key, and
  \<open>Cursor.Next\<close> is the tail.
\<close>

definition cursor_Seek :: "'v bucket \<Rightarrow> string \<Rightarrow> (string \<times> 'v) list" where
  "cursor_Seek b k = dropWhile (\<lambda>kv. fst kv < k) (pairs b)"

text \<open>The database: the four buckets, each of which \<open>tx.Bucket\<close> may fail to find.\<close>

record db =
  usersBucket :: "string bucket option"
  objectsBucket :: "MetaObject gob bucket option"
  locksBucket :: "MetaLock gob bucket option"
  lockPathsBucket :: "MetaLock gob bucket option"

text \<open>
  A transaction body is a function from the database to the final values of the variables
  it captures, its error and the database with the writes made so far.  \<open>db.Update\<close>
  commits the writes when the body returns no error and rolls them back otherwise;
  assignments to captured variables are not rolled back.  \<open>db.View\<close> never writes.
\<close>

definition db_Update :: "(db \<Rightarrow> 'c \<times> error option \<times> db) \<Rightarrow> db \<Rightarrow> 'c \<times> error option \<times> db" where
  "db_Update body s =
     (case body s of
        (c, Some e, s') \<Rightarrow> (c, Some e, s)
      | (c, None, s') \<Rightarrow> (c, None, s'))"

definition db_View :: "(db \<Rightarrow> 'c \<times> error option) \<Rightarrow> db \<Rightarrow> 'c \<times> error option" where
  "db_View body s = body s"

text \<open>\<open>NewMetaStore\<close> on a fresh database file: the four buckets exist and are empty.\<close>

definition NewMetaStore :: db where
  "NewMetaStore =
     \<lparr>usersBucket = Some empty_bucket, objectsBucket = Some empty_bucket,
      locksBucket = Some empty_bucket, lockPathsBucket = Some empty_bucket\<rparr>"

section \<open>Credentials\<close>

definition AddUser :: "string \<Rightarrow> string \<Rightarrow> db \<Rightarrow> error option \<times> db" where
  "AddUser user pass s =
     (case db_Update (\<lambda>tx.
        case usersBucket tx of
          None \<Rightarrow> ((), Some ErrNoBucket, tx)
        | Some bucket \<Rightarrow>
            (case bucket_Put bucket user pass of
               Inl e \<Rightarrow> ((), Some e, tx)
             | Inr bucket' \<Rightarrow> ((), None, tx\<lparr>usersBucket := Some bucket'\<rparr>))) s of
        (u, err, s') \<Rightarrow> (err, s'))"

definition DeleteUser :: "string \<Rightarrow> db \<Rightarrow> error option \<times> db" where
  "DeleteUser user s =
     (case db_Update (\<lambda>tx.
        case usersBucket tx of
          None \<Rightarrow> ((), Some ErrNoBucket, tx)
        | Some bucket \<Rightarrow> ((), None, tx\<lparr>usersBucket := Some (bucket_Delete bucket user)\<rparr>)) s of
        (u, err, s') \<Rightarrow> (err, s'))"

text \<open>
  What \<open>authenticate\<close> uses from outside meta_store.go is an argument: the answer of
  \<open>Config.IsPublic()\<close>, and the function \<open>checkBasicAuth\<close>, which checks a user and a password
  against the static credential of the administrator (its third argument says whether a
  user and a password were supplied at all).
\<close>

record config =
  IsPublic :: bool
  checkBasicAuth :: "string \<Rightarrow> string \<Rightarrow> bool \<Rightarrow> bool"

definition HasPrefix :: "string \<Rightarrow> string \<Rightarrow> bool" where
  "HasPrefix s p = (take (length p) s = p)"

definition TrimPrefix :: "string \<Rightarrow> string \<Rightarrow> string" where
  "TrimPrefix s p = (if HasPrefix s p then drop (length p) s else s)"

text \<open>\<open>strings.IndexByte\<close>: the index of the first occurrence; \<open>None\<close> stands for \<open>-1\<close>.\<close>

fun IndexByte :: "string \<Rightarrow> char \<Rightarrow> nat option" where
  "IndexByte [] c = None"
| "IndexByte (x # xs) c = (if x = c then Some 0 else map_option Suc (IndexByte xs c))"

text \<open>
  \<open>authenticate\<close>.  The base64 decoder of the standard library is the argument \<open>b64\<close>,
  \<open>None\<close> being its error.
\<close>

definition authenticate :: "config \<Rightarrow> (string \<Rightarrow> string option) \<Rightarrow> db \<Rightarrow> string \<Rightarrow> bool" where
  "authenticate cfg b64 s authorization =
     (if IsPublic cfg then True
      else if authorization = [] then False
      else if \<not> HasPrefix authorization ''Basic '' then False
      else
        (case b64 (TrimPrefix authorization ''Basic '') of
           None \<Rightarrow> False
         | Some cs \<Rightarrow>
             (case IndexByte cs CHR '':'' of
                None \<Rightarrow> False
              | Some i \<Rightarrow>
                  (let user = take i cs; password = drop (i + 1) cs in
                   if checkBasicAuth cfg user password True then True
                   else
                     (let value = fst (db_View (\<lambda>tx.
                            case usersBucket tx of
                              None \<Rightarrow> ([], Some ErrNoBucket)
                            | Some bucket \<Rightarrow>
                                (case bucket_Get bucket user of
                                   None \<Rightarrow> ([], None)
                                 | Some v \<Rightarrow> (v, None))) s)
                      in if value \<noteq> [] \<and> value = password then True else False)))))"

section \<open>Object metadata\<close>

text \<open>
  \<open>UnsafeGet\<close>: the transaction decodes into the captured variable \<open>meta\<close>, which is
  returned when the transaction reports no error.
\<close>

definition UnsafeGet :: "db \<Rightarrow> RequestVars \<Rightarrow> error + MetaObject" where
  "UnsafeGet s v =
     (case db_View (\<lambda>tx.
        case objectsBucket tx of
          None \<Rightarrow> (zeroMetaObject, Some ErrNoBucket)
        | Some bucket \<Rightarrow>
            (let value = bucket_Get bucket (vOid v) in
             if len_is_zero value then (zeroMetaObject, Some ErrObjectNotFound)
             else
               (case gob_Decode value of
                  Inl e \<Rightarrow> (zeroMetaObject, Some e)
                | Inr meta \<Rightarrow> (meta, None)))) s of
        (meta, Some err) \<Rightarrow> Inl err
      | (meta, None) \<Rightarrow> Inr meta)"

definition Get :: "config \<Rightarrow> (string \<Rightarrow> string option) \<Rightarrow> db \<Rightarrow> RequestVars \<Rightarrow> error + MetaObject" where
  "Get cfg b64 s v =
     (if \<not> authenticate cfg b64 s (vAuthorization v) then Inl ErrForbidden
      else UnsafeGet s v)"

definition Put :: "config \<Rightarrow> (string \<Rightarrow> string option) \<Rightarrow> db \<Rightarrow> RequestVars \<Rightarrow> (error + MetaObject) \<times> db" where
  "Put cfg b64 s v =
     (if \<not> authenticate cfg b64 s (vAuthorization v) then (Inl ErrForbidden, s)
      else
        (case Get cfg b64 s v of
           Inr meta \<Rightarrow> (Inr (meta\<lparr>Existing := True\<rparr>), s)
         | Inl e0 \<Rightarrow>
             (let meta = \<lparr>Oid = vOid v, Size = vSize v, Existing = False\<rparr> in
              case db_Update (\<lambda>tx.
                case objectsBucket tx of
                  None \<Rightarrow> ((), Some ErrNoBucket, tx)
                | Some bucket \<Rightarrow>
                    (case bucket_Put bucket (vOid v) (Gob meta) of
                       Inl e \<Rightarrow> ((), Some e, tx)
                     | Inr bucket' \<Rightarrow> ((), None, tx\<lparr>objectsBucket := Some bucket'\<rparr>))) s of
                (u, Some err, s') \<Rightarrow> (Inl err, s')
              | (u, None, s') \<Rightarrow> (Inr meta, s'))))"

definition Delete :: "config \<Rightarrow> (string \<Rightarrow> string option) \<Rightarrow> db \<Rightarrow> RequestVars \<Rightarrow> error option \<times> db" where
  "Delete cfg b64 s v =
     (if \<not> authenticate cfg b64 s (vAuthorization v) then (Some ErrForbidden, s)
      else
        (case db_Update (\<lambda>tx.
           case objectsBucket tx of
             None \<Rightarrow> ((), Some ErrNoBucket, tx)
           | Some bucket \<Rightarrow>
               ((), None, tx\<lparr>objectsBucket := Some (bucket_Delete bucket (vOid v))\<rparr>)) s of
           (u, err, s') \<Rightarrow> (err, s')))"

section \<open>Locks\<close>

text \<open>\<open>byte(x)\<close> keeps the low eight bits.\<close>

definition byte :: "64 word \<Rightarrow> char" where
  "byte w = char_of (unat w)"

text \<open>\<open>itob\<close>: \<open>binary.BigEndian.PutUint64\<close> stores the most significant byte first.\<close>

definition itob :: "64 word \<Rightarrow> string" where
  "itob v = [byte (drop_bit 56 v), byte (drop_bit 48 v), byte (drop_bit 40 v),
             byte (drop_bit 32 v), byte (drop_bit 24 v), byte (drop_bit 16 v),
             byte (drop_bit 8 v), byte v]"

text \<open>
  The body of the transaction of \<open>LockAdd\<close>.  The captured variable is \<open>existingMeta\<close>,
  assigned only on the last line; the decoding of the stored lock on the duplicate path is
  commented out in the source.  \<open>now\<close> is \<open>time.Now().String()\<close>, and \<open>id'\<close> is the source's
  \<open>id\<close>, which is a constant of HOL.
\<close>

definition LockAdd_tx :: "string \<Rightarrow> string \<Rightarrow> string \<Rightarrow> db \<Rightarrow> MetaLock \<times> error option \<times> db" where
  "LockAdd_tx filepath owner now tx =
     (case lockPathsBucket tx of
        None \<Rightarrow> (zeroMetaLock, Some ErrNoBucket, tx)
      | Some pb \<Rightarrow>
          (let value = bucket_Get pb filepath in
           if \<not> len_is_zero value then (zeroMetaLock, Some ErrDuplicateObject, tx)
           else
             (case bucket_NextSequence pb of
                (id', pb1) \<Rightarrow>
                  (let tx1 = tx\<lparr>lockPathsBucket := Some pb1\<rparr>;
                       meta = \<lparr>ID = id', Path = filepath, Owner = owner, LockedAt = now\<rparr>
                   in
                     (case locksBucket tx1 of
                        None \<Rightarrow> (zeroMetaLock, Some ErrNoBucket, tx1)
                      | Some lb \<Rightarrow>
                          (case bucket_Put lb (itob id') (Gob meta) of
                             Inl e \<Rightarrow> (zeroMetaLock, Some e, tx1)
                           | Inr lb1 \<Rightarrow>
                               (let tx2 = tx1\<lparr>locksBucket := Some lb1\<rparr> in
                                case bucket_Put pb1 filepath (Gob meta) of
                                  Inl e \<Rightarrow> (zeroMetaLock, Some e, tx2)
                                | Inr pb2 \<Rightarrow>
                                    (meta, None, tx2\<lparr>lockPathsBucket := Some pb2\<rparr>))))))))"

text \<open>
  \<open>LockAdd\<close> returns a pointer and an error, and on a duplicate both are non-nil: the
  result is the pair of the two, \<open>None\<close> for nil.
\<close>

definition LockAdd :: "string \<Rightarrow> string \<Rightarrow> string \<Rightarrow> db \<Rightarrow> (MetaLock option \<times> error option) \<times> db" where
  "LockAdd filepath owner now s =
     (case db_Update (LockAdd_tx filepath owner now) s of
        (existingMeta, Some err, s') \<Rightarrow>
          (if err = ErrDuplicateObject then ((Some existingMeta, Some err), s')
           else ((None, Some err), s'))
      | (existingMeta, None, s') \<Rightarrow> ((Some existingMeta, None), s'))"

text \<open>The body of the transaction of \<open>LockDelete\<close>; the captured variable is \<open>meta\<close>.\<close>

definition LockDelete_tx :: "64 word \<Rightarrow> string \<Rightarrow> bool \<Rightarrow> db \<Rightarrow> MetaLock \<times> error option \<times> db" where
  "LockDelete_tx id' owner force tx =
     (case locksBucket tx of
        None \<Rightarrow> (zeroMetaLock, Some ErrNoBucket, tx)
      | Some lb \<Rightarrow>
          (let idBytes = itob id'; value = bucket_Get lb idBytes in
           if len_is_zero value then (zeroMetaLock, Some ErrObjectNotFound, tx)
           else
             (case gob_Decode value of
                Inl e \<Rightarrow> (zeroMetaLock, Some e, tx)
              | Inr meta \<Rightarrow>
                  (if \<not> force \<and> owner \<noteq> Owner meta then (meta, Some ErrUnauthorized, tx)
                   else
                     (let tx1 = tx\<lparr>locksBucket := Some (bucket_Delete lb idBytes)\<rparr> in
                      case lockPathsBucket tx1 of
                        None \<Rightarrow> (meta, Some ErrNoBucket, tx1)
                      | Some pb \<Rightarrow>
                          (meta, None,
                           tx1\<lparr>lockPathsBucket := Some (bucket_Delete pb (Path meta))\<rparr>))))))"

definition LockDelete :: "64 word \<Rightarrow> string \<Rightarrow> bool \<Rightarrow> db \<Rightarrow> (error + MetaLock) \<times> db" where
  "LockDelete id' owner force s =
     (case db_Update (LockDelete_tx id' owner force) s of
        (meta, Some err, s') \<Rightarrow> (Inl err, s')
      | (meta, None, s') \<Rightarrow> (Inr meta, s'))"

text \<open>
  \<open>path.Match\<close> belongs to the standard library.  A pattern without any chunk, the
  empty pattern, matches exactly the empty name and is never an error; on every other
  pattern the matcher is the argument \<open>glob\<close>, \<open>None\<close> being \<open>ErrBadPattern\<close>.
\<close>

definition path_Match :: "(string \<Rightarrow> string \<Rightarrow> bool option) \<Rightarrow> string \<Rightarrow> string \<Rightarrow> bool option" where
  "path_Match glob pattern name = (if pattern = [] then Some (name = []) else glob pattern name)"

text \<open>
  The loop of \<open>LockList\<close>, from a cursor position: it returns the error, the position of
  the cursor when the loop ends, and the locks collected.  A \<open>continue\<close> runs the post
  statement \<open>c.Next()\<close> without touching \<open>limit\<close>.
\<close>

fun LockList_loop ::
  "(string \<Rightarrow> string \<Rightarrow> bool option) \<Rightarrow> string \<Rightarrow> (string \<times> MetaLock gob) list \<Rightarrow> int \<Rightarrow>
   MetaLock list \<Rightarrow> error option \<times> (string \<times> MetaLock gob) list \<times> MetaLock list" where
  "LockList_loop glob matchpath [] limit locks = (None, [], locks)"
| "LockList_loop glob matchpath ((k, v) # rest) limit locks =
     (if limit > 0 then
        (case gob_Decode (Some v) of
           Inl e \<Rightarrow> (Some e, (k, v) # rest, locks)
         | Inr meta \<Rightarrow>
             (if matchpath \<noteq> [] \<and>
                 (case path_Match glob matchpath (Path meta) of
                    None \<Rightarrow> True
                  | Some matched \<Rightarrow> \<not> matched)
              then LockList_loop glob matchpath rest limit locks
              else LockList_loop glob matchpath rest (limit - 1) (locks @ [meta])))
      else (None, (k, v) # rest, locks))"

definition clamp_limit :: "int \<Rightarrow> int" where
  "clamp_limit limit = (if limit < 1 then 1 else if limit > 100 then 100 else limit)"

text \<open>
  \<open>LockList\<close> returns the locks, the cursor, \<open>pending\<close> and the error.  The captured
  variables of the transaction are \<open>pending\<close> and \<open>locks\<close>.
\<close>

definition LockList ::
  "(string \<Rightarrow> string \<Rightarrow> bool option) \<Rightarrow> db \<Rightarrow> string \<Rightarrow> 64 word \<Rightarrow> int \<Rightarrow>
   MetaLock list \<times> 64 word \<times> bool \<times> error option" where
  "LockList glob s matchpath cursor limit0 =
     (let limit = clamp_limit limit0 in
      case db_View (\<lambda>tx.
        case locksBucket tx of
          None \<Rightarrow> ((False, []), Some ErrNoBucket)
        | Some lb \<Rightarrow>
            (case LockList_loop glob matchpath (cursor_Seek lb (itob cursor)) limit [] of
               (Some e, c, locks) \<Rightarrow> ((True, locks), Some e)
             | (None, c, locks) \<Rightarrow> ((if c = [] then False else True, locks), None))) s of
        ((pending, locks), Some err) \<Rightarrow> ([], 0, False, Some err)
      | ((pending, locks), None) \<Rightarrow>
          (if pending \<and> length locks > 0 then (locks, ID (last locks) + 1, pending, None)
           else (locks, cursor, pending, None)))"

section \<open>Notions of the specification\<close>

text \<open>The \<open>k\<close> least significant base-256 digits of a number, most significant first.\<close>

fun digits :: "nat \<Rightarrow> nat \<Rightarrow> string" where
  "digits 0 n = []"
| "digits (Suc k) n = char_of (n div 256 ^ k) # digits k n"

text \<open>The records a bucket of gob values holds, in the order of the bucket.\<close>

fun decoded :: "(string \<times> 'a gob) list \<Rightarrow> 'a list" where
  "decoded [] = []"
| "decoded ((k, Gob x) # ps) = x # decoded ps"
| "decoded ((k, Junk bs) # ps) = decoded ps"

fun decodable :: "'a gob \<Rightarrow> bool" where
  "decodable (Gob x) = True"
| "decodable (Junk bs) = False"

text \<open>The pair under which \<open>LockAdd\<close> stores a lock in the id-indexed bucket.\<close>

definition lock_pair :: "MetaLock \<Rightarrow> string \<times> MetaLock gob" where
  "lock_pair l = (itob (ID l), Gob l)"

text \<open>
  A well-formed id-indexed bucket: the keys ascend strictly, as in every bucket of the
  engine, and every pair is a lock stored under the key of its own id.
\<close>

definition locks_wf :: "MetaLock gob bucket \<Rightarrow> bool" where
  "locks_wf lb =
     (sorted_wrt (<) (map fst (pairs lb)) \<and>
      list_all (\<lambda>kv. case snd kv of Gob l \<Rightarrow> fst kv = itob (ID l) | Junk bs \<Rightarrow> False) (pairs lb))"

text \<open>
  The specification of \<open>LockList\<close>, in its words: an entry is accepted when the pattern is
  empty or the entry's path glob-matches the pattern; the entries visited are the locks in
  ascending id order, from the first id that is not below the cursor.
\<close>

definition accepted :: "(string \<Rightarrow> string \<Rightarrow> bool option) \<Rightarrow> string \<Rightarrow> MetaLock \<Rightarrow> bool" where
  "accepted glob pattern l = (pattern = [] \<or> path_Match glob pattern (Path l) = Some True)"

definition locks_from :: "MetaLock gob bucket \<Rightarrow> 64 word \<Rightarrow> MetaLock list" where
  "locks_from lb cursor = filter (\<lambda>l. cursor \<le> ID l) (sort_key ID (decoded (pairs lb)))"

text \<open>
  The iteration over the entries \<open>es\<close> stops at the limit while entries remain: after some
  \<open>m\<close> entries have been visited \<open>n\<close> of them have been accepted, and entry \<open>m\<close> (counting
  from 0) still exists.
\<close>

definition limit_hit_before_end :: "('a \<Rightarrow> bool) \<Rightarrow> nat \<Rightarrow> 'a list \<Rightarrow> bool" where
  "limit_hit_before_end A n es = (\<exists>m<length es. length (filter A (take m es)) = n)"

text \<open>
  The two lock buckets are in sync: every pair of the id-indexed bucket is a lock whose
  path holds the same payload in the path-indexed bucket, and every pair of the
  path-indexed bucket is a lock of that path whose id holds the same payload in the
  id-indexed bucket.
\<close>

definition locks_in_sync :: "db \<Rightarrow> bool" where
  "locks_in_sync s =
     (case locksBucket s of
        None \<Rightarrow> False
      | Some lb \<Rightarrow>
          (case lockPathsBucket s of
             None \<Rightarrow> False
           | Some pb \<Rightarrow>
               list_all (\<lambda>kv. case snd kv of
                                Gob l \<Rightarrow> fst kv = itob (ID l) \<and> bucket_Get pb (Path l) = Some (Gob l)
                              | Junk bs \<Rightarrow> False) (pairs lb) \<and>
               list_all (\<lambda>kv. case snd kv of
                                Gob l \<Rightarrow> fst kv = Path l \<and> bucket_Get lb (itob (ID l)) = Some (Gob l)
                              | Junk bs \<Rightarrow> False) (pairs pb)))"

text \<open>
  Sequences of \<open>LockAdd\<close> and \<open>LockDelete\<close> calls on one store.  Running a sequence gives
  the ids of the locks created, in the order of their creation, and the final store.
\<close>

datatype lock_op = OpLockAdd string string string | OpLockDelete "64 word" string bool

fun apply_op :: "lock_op \<Rightarrow> db \<Rightarrow> 64 word option \<times> db" where
  "apply_op (OpLockAdd filepath owner now) s =
     (case LockAdd filepath owner now s of
        ((Some l, None), s') \<Rightarrow> (Some (ID l), s')
      | ((Some l, Some e), s') \<Rightarrow> (None, s')
      | ((None, e), s') \<Rightarrow> (None, s'))"
| "apply_op (OpLockDelete i owner force) s = (None, snd (LockDelete i owner force s))"

fun run_ops :: "lock_op list \<Rightarrow> db \<Rightarrow> 64 word list \<times> db" where
  "run_ops [] s = ([], s)"
| "run_ops (op # ops) s =
     (case apply_op op s of
        (r, s1) \<Rightarrow>
          (case run_ops ops s1 of
             (ids, s2) \<Rightarrow> ((case r of None \<Rightarrow> ids | Some i \<Rightarrow> i # ids), s2)))"

text \<open>At most one lock per path: the paths of the stored locks are pairwise distinct.\<close>

definition one_lock_per_path :: "db \<Rightarrow> bool" where
  "one_lock_per_path s =
     (case locksBucket s of
        None \<Rightarrow> False
      | Some lb \<Rightarrow> distinct (map Path (decoded (pairs lb))))"

text \<open>
  The invariant behind the sync of the two buckets: the keys of the id-indexed bucket
  ascend strictly, the buckets are in sync, and no stored id exceeds the sequence counter
  of the path-indexed bucket, from which \<open>LockAdd\<close> draws the ids.  \<open>sync_pairs\<close> is the
  same statement on the lists of pairs, and \<open>seq_of\<close> reads the counter.
\<close>

definition locks_inv :: "db \<Rightarrow> bool" where
  "locks_inv s =
     (case locksBucket s of
        None \<Rightarrow> False
      | Some lb \<Rightarrow>
          (case lockPathsBucket s of
             None \<Rightarrow> False
           | Some pb \<Rightarrow>
               sorted_wrt (<) (map fst (pairs lb)) \<and>
               locks_in_sync s \<and>
               list_all (\<lambda>kv. case snd kv of Gob l \<Rightarrow> ID l \<le> sequence pb | Junk bs \<Rightarrow> False)
                 (pairs lb)))"

definition sync_pairs ::
  "(string \<times> MetaLock gob) list \<Rightarrow> (string \<times> MetaLock gob) list \<Rightarrow> 64 word \<Rightarrow> bool" where
  "sync_pairs lb pb q =
     ((\<forall>kv\<in>set lb. \<exists>l. snd kv = Gob l \<and> fst kv = itob (ID l) \<and>
          map_of pb (Path l) = Some (Gob l) \<and> ID l \<le> q) \<and>
      (\<forall>kv\<in>set pb. \<exists>l. snd kv = Gob l \<and> fst kv = Path l \<and>
          map_of lb (itob (ID l)) = Some (Gob l)))"

definition seq_of :: "db \<Rightarrow> nat" where
  "seq_of s = (case lockPathsBucket s of None \<Rightarrow> 0 | Some pb \<Rightarrow> unat (sequence pb))"

section \<open>Example data\<close>

text \<open>
  A configuration that is not public and whose administrator is \<open>admin\<close> with the password
  \<open>secret\<close>, and four values of the graph of
  \<open>base64.StdEncoding.DecodeString\<close> (the encodings of \<open>admin:secret\<close>, \<open>bob:\<close>,
  \<open>bob:hunter2\<close> and \<open>adminsecret\<close>); the examples decode nothing else, and \<open>!!!\<close>, which
  they use as corrupt input, is corrupt for the library as well.
\<close>

definition example_cfg :: config where
  "example_cfg =
     \<lparr>IsPublic = False,
      checkBasicAuth = (\<lambda>user pass ok. ok \<and> user = ''admin'' \<and> pass = ''secret'')\<rparr>"

definition example_b64 :: "string \<Rightarrow> string option" where
  "example_b64 x =
     (if x = ''YWRtaW46c2VjcmV0'' then Some ''admin:secret''
      else if x = ''Ym9iOg=='' then Some ''bob:''
      else if x = ''Ym9iOmh1bnRlcjI='' then Some ''bob:hunter2''
      else if x = ''YWRtaW5zZWNyZXQ='' then Some ''adminsecret''
      else None)"

text \<open>
  A matcher for the examples: \<open>path.Match\<close> reports \<open>ErrBadPattern\<close> for the pattern \<open>[\<close>
  whatever the name, and a pattern without metacharacters matches exactly itself.
\<close>

definition example_glob :: "string \<Rightarrow> string \<Rightarrow> bool option" where
  "example_glob pattern name = (if pattern = ''['' then None else Some (pattern = name))"

text \<open>The locks and stores of \<open>TestLocks\<close>: two locks added to a fresh store.\<close>

definition lock1 :: MetaLock where
  "lock1 = \<lparr>ID = 1, Path = ''/test'', Owner = ''owner'', LockedAt = ''t1''\<rparr>"

definition lock2 :: MetaLock where
  "lock2 = \<lparr>ID = 2, Path = ''/test2'', Owner = ''owner'', LockedAt = ''t2''\<rparr>"

definition store1 :: db where
  "store1 = snd (LockAdd ''/test'' ''owner'' ''t1'' NewMetaStore)"

definition store2 :: db where
  "store2 = snd (LockAdd ''/test2'' ''owner'' ''t2'' store1)"

definition locks1 :: "MetaLock gob bucket" where
  "locks1 = \<lparr>pairs = [lock_pair lock1], sequence = 0\<rparr>"

definition lockPaths1 :: "MetaLock gob bucket" where
  "lockPaths1 = \<lparr>pairs = [(''/test'', Gob lock1)], sequence = 1\<rparr>"

definition locks2 :: "MetaLock gob bucket" where
  "locks2 = \<lparr>pairs = [lock_pair lock1, lock_pair lock2], sequence = 0\<rparr>"

definition lockPaths2 :: "MetaLock gob bucket" where
  "lockPaths2 = \<lparr>pairs = [(''/test'', Gob lock1), (''/test2'', Gob lock2)], sequence = 2\<rparr>"

text \<open>The credential of the administrator, and stores with a user \<open>bob\<close>.\<close>

definition admin_auth :: string where
  "admin_auth = ''Basic YWRtaW46c2VjcmV0''"

definition store_bob :: db where
  "store_bob = snd (AddUser ''bob'' ''hunter2'' NewMetaStore)"

definition store_bob_empty :: db where
  "store_bob_empty = snd (AddUser ''bob'' [] NewMetaStore)"

text \<open>Two requests for the same oid with different sizes, and the store after the first.\<close>

definition request42 :: RequestVars where
  "request42 = \<lparr>vOid = ''abc'', vSize = 42, vAuthorization = admin_auth\<rparr>"

definition request7 :: RequestVars where
  "request7 = \<lparr>vOid = ''abc'', vSize = 7, vAuthorization = admin_auth\<rparr>"

definition object42 :: MetaObject where
  "object42 = \<lparr>Oid = ''abc'', Size = 42, Existing = False\<rparr>"

definition store_abc :: db where
  "store_abc = snd (Put example_cfg example_b64 NewMetaStore request42)"

definition objects_abc :: "MetaObject gob bucket" where
  "objects_abc = \<lparr>pairs = [(''abc'', Gob object42)], sequence = 0\<rparr>"

text \<open>The calls of \<open>TestLocks\<close> that change the store, followed by one more \<open>LockAdd\<close>.\<close>

definition test_ops :: "lock_op list" where
  "test_ops =
     [OpLockAdd ''/test'' ''owner'' ''t1'', OpLockAdd ''/test2'' ''owner'' ''t2'',
      OpLockAdd ''/test'' ''owner'' ''t3'', OpLockDelete 2 ''wrong'' False,
      OpLockDelete 2 ''owner'' False, OpLockDelete 1 ''wrong'' True,
      OpLockAdd ''/test'' ''other'' ''t4'']"

definition store_after_test :: db where
  "store_after_test =
     NewMetaStore\<lparr>locksBucket :=
                    Some \<lparr>pairs = [lock_pair \<lparr>ID = 3, Path = ''/test'', Owner = ''other'',
                                                LockedAt = ''t4''\<rparr>], sequence = 0\<rparr>,
                  lockPathsBucket :=
                    Some \<lparr>pairs = [(''/test'', Gob \<lparr>ID = 3, Path = ''/test'', Owner = ''other'',
                                                      LockedAt = ''t4''\<rparr>)], sequence = 3\<rparr>\<rparr>"

text \<open>
  A sequence of calls after which the sequence counter has wrapped around: a lock on \<open>/a\<close>,
  which gets id 1; then \<open>2^64 - 1\<close> rounds that lock \<open>/b\<close> and unlock it again, round \<open>k\<close>
  drawing the id \<open>k + 2\<close> modulo \<open>2^64\<close>; then one more lock on \<open>/b\<close>.  \<open>store_a q\<close> is the
  store that holds the lock on \<open>/a\<close> alone when the counter is \<open>q\<close>.
\<close>

definition wrap_count :: nat where
  "wrap_count = 18446744073709551615"

definition churn_round :: "nat \<Rightarrow> lock_op list" where
  "churn_round k = [OpLockAdd ''/b'' ''bob'' ''t'', OpLockDelete (of_nat k + 2) ''bob'' False]"

definition churn_ops :: "nat \<Rightarrow> lock_op list" where
  "churn_ops n = concat (map churn_round [0..<n])"

definition wrap_ops :: "lock_op list" where
  "wrap_ops = OpLockAdd ''/a'' ''alice'' ''t'' # churn_ops wrap_count @ [OpLockAdd ''/b'' ''bob'' ''t'']"

definition lock_a :: MetaLock where
  "lock_a = \<lparr>ID = 1, Path = ''/a'', Owner = ''alice'', LockedAt = ''t''\<rparr>"

definition lock_b :: MetaLock where
  "lock_b = \<lparr>ID = 1, Path = ''/b'', Owner = ''bob'', LockedAt = ''t''\<rparr>"

definition store_a :: "64 word \<Rightarrow> db" where
  "store_a q =
     NewMetaStore\<lparr>locksBucket := Some \<lparr>pairs = [lock_pair lock_a], sequence = 0\<rparr>,
                  lockPathsBucket := Some \<lparr>pairs = [(''/a'', Gob lock_a)], sequence = q\<rparr>\<rparr>"

definition store_wrapped :: db where
  "store_wrapped =
     NewMetaStore\<lparr>locksBucket := Some \<lparr>pairs = [lock_pair lock_b], sequence = 0\<rparr>,
                  lockPathsBucket :=
                    Some \<lparr>pairs = [(''/a'', Gob lock_a), (''/b'', Gob lock_b)], sequence = 1\<rparr>\<rparr>"

section \<open>The key encoding preserves the order of the ids\<close>

lemma char_less_char_of: "(char_of (a::nat) < char_of (b::nat)) = (a mod 256 < b mod 256)"
  by (simp add: less_char_def)

lemma char_of_eq_nat: "(char_of (a::nat) = char_of (b::nat)) = (a mod 256 = b mod 256)"
  by (simp add: char_of_eq_iff take_bit_eq_mod)

lemma lex_step:
  fixes m qa qb ra rb :: nat
  assumes ra: "ra < m" and rb: "rb < m"
  shows "(m * qa + ra < m * qb + rb) = (qa < qb \<or> qa = qb \<and> ra < rb)"
proof (cases "qa < qb")
  case True
  then have "qa + 1 \<le> qb" by simp
  then have "m * (qa + 1) \<le> m * qb" by (rule mult_le_mono2)
  then show ?thesis using True ra by (simp add: algebra_simps)
next
  case False
  show ?thesis
  proof (cases "qa = qb")
    case True
    then show ?thesis by simp
  next
    case neq: False
    with False have "qb + 1 \<le> qa" by simp
    then have "m * (qb + 1) \<le> m * qa" by (rule mult_le_mono2)
    then show ?thesis using False neq rb by (simp add: algebra_simps)
  qed
qed

lemma digits_less: "(digits k a < digits k b) = (a mod 256 ^ k < b mod 256 ^ k)"
proof (induction k)
  case 0
  show ?case by simp
next
  case (Suc k)
  have ra: "a mod 256 ^ k < (256::nat) ^ k" and rb: "b mod 256 ^ k < (256::nat) ^ k"
    by simp_all
  have sa: "a mod 256 ^ Suc k = 256 ^ k * (a div 256 ^ k mod 256) + a mod 256 ^ k"
    using mod_mult2_eq [of a "256 ^ k" 256] by (simp add: mult.commute)
  have sb: "b mod 256 ^ Suc k = 256 ^ k * (b div 256 ^ k mod 256) + b mod 256 ^ k"
    using mod_mult2_eq [of b "256 ^ k" 256] by (simp add: mult.commute)
  have "(digits (Suc k) a < digits (Suc k) b) =
      (a div 256 ^ k mod 256 < b div 256 ^ k mod 256 \<or>
       a div 256 ^ k mod 256 = b div 256 ^ k mod 256 \<and> a mod 256 ^ k < b mod 256 ^ k)"
    using Suc.IH by (simp add: char_less_char_of char_of_eq_nat)
  also have "\<dots> = (a mod 256 ^ Suc k < b mod 256 ^ Suc k)"
    unfolding sa sb using lex_step [OF ra rb] by simp
  finally show ?case .
qed

lemma itob_digits:
  "itob v = digits (Suc (Suc (Suc (Suc (Suc (Suc (Suc (Suc 0)))))))) (unat v)"
  unfolding itob_def byte_def unat_drop_bit_eq
  by (simp add: drop_bit_eq_div)

lemma itob_less: "(itob u < itob v) = (u < v)"
proof -
  have k: "Suc (Suc (Suc (Suc (Suc (Suc (Suc (Suc 0))))))) = 8"
    by simp
  have "unat u < 2 ^ 64" "unat v < 2 ^ 64"
    using unsigned_less [of u] unsigned_less [of v] by simp_all
  then have "unat u mod 256 ^ 8 = unat u" "unat v mod 256 ^ 8 = unat v"
    by simp_all
  then show ?thesis
    unfolding itob_digits digits_less word_less_nat_alt k by simp
qed

lemma itob_inj: "(itob u = itob v) = (u = v)"
proof
  assume e: "itob u = itob v"
  have "\<not> u < v" "\<not> v < u"
    using itob_less [of u v] itob_less [of v u] e by simp_all
  then show "u = v" by simp
qed simp

lemma length_itob: "length (itob v) = 8"
  by (simp add: itob_def)

text \<open>
  C9: for all \<open>uint64\<close> ids \<open>u\<close> and \<open>v\<close>, \<open>u < v\<close> if and only if the 8-byte big-endian key
  of \<open>u\<close> is lexicographically less than the key of \<open>v\<close>.
\<close>

theorem itob_order_embedding: "(u < v) = (itob u < itob v)"
  by (simp add: itob_less)


section \<open>The engine\<close>

lemma itob_nonempty: "itob v \<noteq> []"
  by (simp add: itob_def)

lemma bucket_Put_itob:
  "bucket_Put b (itob v) x = Inr (b\<lparr>pairs := put_pair (itob v) x (pairs b)\<rparr>)"
  by (simp add: bucket_Put_def itob_nonempty length_itob MaxKeySize_def)

lemma map_of_put_pair: "map_of (put_pair k v ps) = (map_of ps)(k \<mapsto> v)"
  by (induction ps) (auto simp: fun_upd_twist)

lemma map_of_delete: "map_of (filter (\<lambda>kv. fst kv \<noteq> k) ps) = (map_of ps)(k := None)"
  by (induction ps) auto

lemma bucket_Get_Delete:
  "bucket_Get (bucket_Delete b k) k' = (if k' = k then None else bucket_Get b k')"
  by (simp add: bucket_Get_def bucket_Delete_def map_of_delete)

lemma bucket_Get_put_pair:
  "bucket_Get (b\<lparr>pairs := put_pair k v (pairs b)\<rparr>) k' = (if k' = k then Some v else bucket_Get b k')"
  by (simp add: bucket_Get_def map_of_put_pair)

lemmas eval_defs = LockAdd_def LockAdd_tx_def db_Update_def NewMetaStore_def empty_bucket_def
  bucket_Get_def bucket_Put_itob bucket_Put_def bucket_NextSequence_def MaxKeySize_def
  zeroMetaLock_def LockDelete_def LockDelete_tx_def bucket_Delete_def Let_def itob_less itob_inj
  itob_nonempty length_itob

lemma store1_eq:
  "store1 = NewMetaStore\<lparr>locksBucket := Some locks1, lockPathsBucket := Some lockPaths1\<rparr>"
  by (simp add: store1_def locks1_def lockPaths1_def lock1_def lock_pair_def eval_defs)

lemma store2_eq:
  "store2 = NewMetaStore\<lparr>locksBucket := Some locks2, lockPathsBucket := Some lockPaths2\<rparr>"
  by (simp add: store2_def store1_eq locks1_def lockPaths1_def locks2_def lockPaths2_def
      lock1_def lock2_def lock_pair_def eval_defs)

lemma locks2_wf: "locks_wf locks2"
  by (simp add: locks_wf_def locks2_def lock_pair_def lock1_def lock2_def itob_less)

section \<open>LockAdd on a path that is already locked\<close>

lemma LockAdd_duplicate:
  assumes "lockPathsBucket s = Some pb" and "\<not> len_is_zero (bucket_Get pb filepath)"
  shows "LockAdd filepath owner now s = ((Some zeroMetaLock, Some ErrDuplicateObject), s)"
  using assms by (simp add: LockAdd_def LockAdd_tx_def db_Update_def)

text \<open>
  C2: \<open>LockAdd(p, o1)\<close> followed by \<open>LockAdd(p, o2)\<close> should fail with the duplicate error
  and return the lock the first call created.  On a fresh store the second call does fail
  with \<open>ErrDuplicateObject\<close> and leaves the store as it was, with its one lock for the
  path, but the lock it returns is the zero value of \<open>MetaLock\<close> (id 0, empty path, owner
  and time), not the lock of the first call.
\<close>

theorem LockAdd_duplicate_returns_zero_lock:
  "LockAdd ''/test'' ''owner'' ''t1'' NewMetaStore = ((Some lock1, None), store1) \<and>
   LockAdd ''/test'' ''other'' ''t2'' store1 =
     ((Some \<lparr>ID = 0, Path = [], Owner = [], LockedAt = []\<rparr>, Some ErrDuplicateObject), store1) \<and>
   map_option (\<lambda>pb. bucket_Get pb ''/test'') (lockPathsBucket store1) = Some (Some (Gob lock1)) \<and>
   map_option (\<lambda>lb. decoded (pairs lb)) (locksBucket store1) = Some [lock1]"
proof -
  have "LockAdd ''/test'' ''owner'' ''t1'' NewMetaStore = ((Some lock1, None), store1)"
    by (simp add: store1_eq locks1_def lockPaths1_def lock1_def lock_pair_def eval_defs)
  moreover have "LockAdd ''/test'' ''other'' ''t2'' store1 =
     ((Some \<lparr>ID = 0, Path = [], Owner = [], LockedAt = []\<rparr>, Some ErrDuplicateObject), store1)"
    by (simp add: store1_eq locks1_def lockPaths1_def lock1_def lock_pair_def eval_defs)
  ultimately show ?thesis
    by (simp add: store1_eq locks1_def lockPaths1_def lock_pair_def NewMetaStore_def
        bucket_Get_def)
qed

section \<open>LockDelete\<close>

lemma LockDelete_error_unchanged:
  "fst (LockDelete i owner force s) = Inl e \<Longrightarrow> snd (LockDelete i owner force s) = s"
  by (auto simp: LockDelete_def db_Update_def split: prod.splits option.splits)

text \<open>
  C8: when both lock buckets exist, \<open>LockDelete\<close> returns the not-found error if no lock
  is stored under the id; the unauthorized error if \<open>force\<close> is false and the owner differs
  from the stored owner; otherwise it returns the stored lock and removes the id from the
  id-indexed bucket and the lock's path from the path-indexed bucket, leaving every other
  key as it was.  On every error the store is unchanged.
\<close>

theorem LockDelete_outcomes:
  assumes "locksBucket s = Some lb" and "lockPathsBucket s = Some pb"
  shows "(bucket_Get lb (itob i) = None \<longrightarrow>
            LockDelete i owner force s = (Inl ErrObjectNotFound, s)) \<and>
         (\<forall>l. bucket_Get lb (itob i) = Some (Gob l) \<and> \<not> force \<and> owner \<noteq> Owner l \<longrightarrow>
            LockDelete i owner force s = (Inl ErrUnauthorized, s)) \<and>
         (\<forall>l. bucket_Get lb (itob i) = Some (Gob l) \<and> (force \<or> owner = Owner l) \<longrightarrow>
            (\<exists>lb' pb'. LockDelete i owner force s =
                 (Inr l, s\<lparr>locksBucket := Some lb', lockPathsBucket := Some pb'\<rparr>) \<and>
               (\<forall>k. bucket_Get lb' k = (if k = itob i then None else bucket_Get lb k)) \<and>
               (\<forall>p. bucket_Get pb' p = (if p = Path l then None else bucket_Get pb p)))) \<and>
         (\<forall>e. fst (LockDelete i owner force s) = Inl e \<longrightarrow>
            snd (LockDelete i owner force s) = s)"
proof (intro conjI allI impI)
  assume "bucket_Get lb (itob i) = None"
  then show "LockDelete i owner force s = (Inl ErrObjectNotFound, s)"
    using assms by (simp add: LockDelete_def LockDelete_tx_def db_Update_def)
next
  fix l
  assume "bucket_Get lb (itob i) = Some (Gob l) \<and> \<not> force \<and> owner \<noteq> Owner l"
  then show "LockDelete i owner force s = (Inl ErrUnauthorized, s)"
    using assms by (simp add: LockDelete_def LockDelete_tx_def db_Update_def)
next
  fix l
  assume a: "bucket_Get lb (itob i) = Some (Gob l) \<and> (force \<or> owner = Owner l)"
  then have "LockDelete i owner force s =
      (Inr l, s\<lparr>locksBucket := Some (bucket_Delete lb (itob i)),
                lockPathsBucket := Some (bucket_Delete pb (Path l))\<rparr>)"
    using assms by (auto simp: LockDelete_def LockDelete_tx_def db_Update_def)
  then show "\<exists>lb' pb'. LockDelete i owner force s =
                 (Inr l, s\<lparr>locksBucket := Some lb', lockPathsBucket := Some pb'\<rparr>) \<and>
               (\<forall>k. bucket_Get lb' k = (if k = itob i then None else bucket_Get lb k)) \<and>
               (\<forall>p. bucket_Get pb' p = (if p = Path l then None else bucket_Get pb p))"
    using bucket_Get_Delete by blast
next
  fix e
  assume "fst (LockDelete i owner force s) = Inl e"
  then show "snd (LockDelete i owner force s) = s"
    by (rule LockDelete_error_unchanged)
qed

theorem LockDelete_outcomes_witness:
  "locksBucket store2 = Some locks2 \<and> lockPathsBucket store2 = Some lockPaths2 \<and>
   LockDelete 3 ''owner'' False store2 = (Inl ErrObjectNotFound, store2) \<and>
   LockDelete 2 ''wrong'' False store2 = (Inl ErrUnauthorized, store2) \<and>
   LockDelete 2 ''wrong'' True store2 =
     (Inr lock2, NewMetaStore\<lparr>locksBucket := Some locks1,
                               lockPathsBucket := Some (lockPaths1\<lparr>sequence := 2\<rparr>)\<rparr>)"
proof -
  have h1: "locksBucket store2 = Some locks2" and h2: "lockPathsBucket store2 = Some lockPaths2"
    by (simp_all add: store2_eq)
  have g3: "bucket_Get locks2 (itob 3) = None"
    and g2: "bucket_Get locks2 (itob 2) = Some (Gob lock2)"
    by (simp_all add: bucket_Get_def locks2_def lock_pair_def lock1_def lock2_def itob_inj)
  have o: "''wrong'' \<noteq> Owner lock2"
    by (simp add: lock2_def)
  from LockDelete_outcomes [OF h1 h2, of 3 "''owner''" False] g3
  have "LockDelete 3 ''owner'' False store2 = (Inl ErrObjectNotFound, store2)"
    by simp
  moreover from LockDelete_outcomes [OF h1 h2, of 2 "''wrong''" False] g2 o
  have "LockDelete 2 ''wrong'' False store2 = (Inl ErrUnauthorized, store2)"
    by blast
  moreover have "LockDelete 2 ''wrong'' True store2 =
     (Inr lock2, NewMetaStore\<lparr>locksBucket := Some locks1,
                               lockPathsBucket := Some (lockPaths1\<lparr>sequence := 2\<rparr>)\<rparr>)"
    by (simp add: store2_eq locks1_def lockPaths1_def locks2_def lockPaths2_def
        lock1_def lock2_def lock_pair_def eval_defs)
  ultimately show ?thesis
    using h1 h2 by simp
qed

section \<open>LockList\<close>

lemma wf_pairs_decoded:
  "list_all (\<lambda>kv. case snd kv of Gob l \<Rightarrow> fst kv = itob (ID l) | Junk bs \<Rightarrow> False) ps \<Longrightarrow>
   ps = map lock_pair (decoded ps)"
proof (induction ps)
  case Nil
  show ?case by simp
next
  case (Cons kv ps)
  obtain k v where kv: "kv = (k, v)" by (cases kv)
  show ?case using Cons kv by (cases v) (simp_all add: lock_pair_def)
qed

lemma sorted_ids:
  "sorted_wrt (<) (map fst (map lock_pair ls)) \<Longrightarrow> sorted_wrt (<) (map ID ls)"
  by (induction ls) (auto simp: lock_pair_def itob_less)

lemma sort_key_sorted: "sorted_wrt (<) (map f xs) \<Longrightarrow> sort_key f xs = xs"
  for f :: "'a \<Rightarrow> 'b::linorder"
proof (induction xs)
  case Nil
  show ?case by simp
next
  case (Cons x xs)
  then have "sort_key f xs = xs" by simp
  moreover have "insort_key f x xs = x # xs"
    using Cons.prems by (cases xs) (auto simp: less_imp_le)
  ultimately show ?case by simp
qed

lemma dropWhile_sorted_filter:
  "sorted_wrt (<) (map f xs) \<Longrightarrow> dropWhile (\<lambda>x. f x < c) xs = filter (\<lambda>x. c \<le> f x) xs"
  for f :: "'a \<Rightarrow> 'b::linorder"
proof (induction xs)
  case Nil
  show ?case by simp
next
  case (Cons x xs)
  show ?case
  proof (cases "f x < c")
    case True
    then show ?thesis using Cons by auto
  next
    case False
    then have "\<forall>y\<in>set xs. c \<le> f y"
      using Cons.prems by fastforce
    then have "filter (\<lambda>x. c \<le> f x) xs = xs"
      by (simp add: filter_id_conv)
    then show ?thesis using False by simp
  qed
qed

text \<open>
  On a well-formed bucket the cursor, after \<open>Seek\<close>, stands before the locks of the
  specification: the order of the keys is the order of the ids.
\<close>

lemma seek_decoded:
  assumes "locks_wf lb"
  shows "cursor_Seek lb (itob c) = map lock_pair (locks_from lb c)"
proof -
  let ?ls = "decoded (pairs lb)"
  have ps: "pairs lb = map lock_pair ?ls"
    using assms wf_pairs_decoded by (simp add: locks_wf_def)
  have "sorted_wrt (<) (map fst (map lock_pair ?ls))"
    using assms ps by (simp add: locks_wf_def)
  then have st: "sorted_wrt (<) (map ID ?ls)"
    by (rule sorted_ids)
  have "cursor_Seek lb (itob c) = dropWhile (\<lambda>kv. fst kv < itob c) (map lock_pair ?ls)"
    using ps by (simp add: cursor_Seek_def)
  also have "\<dots> = map lock_pair (dropWhile (\<lambda>l. ID l < c) ?ls)"
    by (simp add: dropWhile_map lock_pair_def itob_less comp_def)
  also have "dropWhile (\<lambda>l. ID l < c) ?ls = filter (\<lambda>l. c \<le> ID l) ?ls"
    using st by (rule dropWhile_sorted_filter)
  finally show ?thesis
    using st by (simp add: locks_from_def sort_key_sorted)
qed

lemma loop_step:
  "LockList_loop glob mp (lock_pair l # rest) n acc =
     (if n > 0 then
        (if accepted glob mp l then LockList_loop glob mp rest (n - 1) (acc @ [l])
         else LockList_loop glob mp rest n acc)
      else (None, lock_pair l # rest, acc))"
  by (auto simp: lock_pair_def accepted_def split: option.splits)

lemma ex_less_Suc_split: "(\<exists>m<Suc k. P m) = (P 0 \<or> (\<exists>m<k. P (Suc m)))"
  by (auto simp: less_Suc_eq_0_disj)

lemma limit_hit_Nil: "limit_hit_before_end A n [] = False"
  by (simp add: limit_hit_before_end_def)

lemma limit_hit_Cons:
  "limit_hit_before_end A n (x # xs) =
     (n = 0 \<or> (if A x then 0 < n \<and> limit_hit_before_end A (n - 1) xs
                else limit_hit_before_end A n xs))"
  by (auto simp: limit_hit_before_end_def ex_less_Suc_split)

lemma limit_hit_nonempty:
  assumes "limit_hit_before_end A n es" and "0 < n"
  shows "take n (filter A es) \<noteq> []"
proof -
  from assms obtain m where m: "length (filter A (take m es)) = n"
    by (auto simp: limit_hit_before_end_def)
  have "filter A es = filter A (take m es) @ filter A (drop m es)"
    by (metis append_take_drop_id filter_append)
  then have "n \<le> length (filter A es)"
    using m by simp
  then show ?thesis
    using assms(2) by (cases "filter A es") auto
qed

text \<open>
  The loop over the encoded locks \<open>ls\<close>, with \<open>n\<close> locks still wanted: it never fails, it
  collects the first \<open>n\<close> accepted locks, and its cursor ends on a pair exactly when the
  limit was hit before the end.
\<close>

lemma loop_result:
  "0 \<le> n \<Longrightarrow> \<exists>c. LockList_loop glob mp (map lock_pair ls) n acc =
      (None, c, acc @ take (nat n) (filter (accepted glob mp) ls)) \<and>
      (c \<noteq> [] \<longleftrightarrow> limit_hit_before_end (accepted glob mp) (nat n) ls)"
proof (induction ls arbitrary: n acc)
  case Nil
  show ?case by (simp add: limit_hit_Nil)
next
  case (Cons l ls)
  show ?case
  proof (cases "n > 0")
    case False
    then have "n = 0" using Cons.prems by simp
    then show ?thesis by (simp add: loop_step limit_hit_Cons)
  next
    case pos: True
    show ?thesis
    proof (cases "accepted glob mp l")
      case True
      have n1: "0 \<le> n - 1" using pos by simp
      have tk: "take (nat n) (l # filter (accepted glob mp) ls) =
          l # take (nat (n - 1)) (filter (accepted glob mp) ls)"
        using pos by (simp add: take_Cons' nat_diff_distrib)
      have nn: "nat n - 1 = nat (n - 1)" "0 < nat n"
        using pos by (simp_all add: nat_diff_distrib)
      from Cons.IH [OF n1, of "acc @ [l]"] show ?thesis
        using True pos tk nn by (simp add: loop_step limit_hit_Cons)
    next
      case False
      have nn: "nat n \<noteq> 0" using pos by simp
      from Cons.IH [OF Cons.prems, of acc] show ?thesis
        using False pos nn by (simp add: loop_step limit_hit_Cons)
    qed
  qed
qed

lemma clamp_limit_range: "1 \<le> clamp_limit n \<and> clamp_limit n \<le> 100"
  by (simp add: clamp_limit_def)

lemma LockList_wf:
  assumes lb: "locksBucket s = Some lb" and wf: "locks_wf lb"
  shows "\<exists>pending.
     LockList glob s matchpath cursor limit =
       (let locks = take (nat (clamp_limit limit))
                      (filter (accepted glob matchpath) (locks_from lb cursor))
        in (locks, if pending \<and> locks \<noteq> [] then ID (last locks) + 1 else cursor,
            pending, None)) \<and>
     (pending \<longleftrightarrow> limit_hit_before_end (accepted glob matchpath) (nat (clamp_limit limit))
                    (locks_from lb cursor))"
proof -
  have "0 \<le> clamp_limit limit"
    using clamp_limit_range [of limit] by simp
  from loop_result [OF this, of glob matchpath "locks_from lb cursor" "[]"]
  obtain c where c:
    "LockList_loop glob matchpath (map lock_pair (locks_from lb cursor)) (clamp_limit limit) [] =
      (None, c, take (nat (clamp_limit limit))
                  (filter (accepted glob matchpath) (locks_from lb cursor)))"
    "c \<noteq> [] \<longleftrightarrow> limit_hit_before_end (accepted glob matchpath) (nat (clamp_limit limit))
                  (locks_from lb cursor)"
    by auto
  show ?thesis
    using lb c seek_decoded [OF wf, of cursor]
    by (auto simp: LockList_def db_View_def Let_def intro!: exI [of _ "c \<noteq> []"])
qed

text \<open>
  C4: on a store whose id-indexed bucket is well formed, \<open>LockList\<close> returns, without
  error, the first \<open>min (clamp limit) (number available)\<close> accepted entries among the locks
  visited in ascending id order from the first id that is not below the cursor; an entry
  is accepted when the pattern is empty or its path matches, and the entries that are not
  accepted do not count against the limit, which is clamped to 1..100.
\<close>

theorem LockList_returns_first_accepted:
  assumes "locksBucket s = Some lb" and "locks_wf lb"
  shows "fst (LockList glob s matchpath cursor limit) =
           take (nat (clamp_limit limit))
             (filter (accepted glob matchpath) (locks_from lb cursor)) \<and>
         length (fst (LockList glob s matchpath cursor limit)) =
           min (nat (clamp_limit limit))
             (length (filter (accepted glob matchpath) (locks_from lb cursor))) \<and>
         clamp_limit limit = max 1 (min 100 limit) \<and>
         snd (snd (snd (LockList glob s matchpath cursor limit))) = None"
proof -
  from LockList_wf [OF assms, of glob matchpath cursor limit]
  have "fst (LockList glob s matchpath cursor limit) =
           take (nat (clamp_limit limit))
             (filter (accepted glob matchpath) (locks_from lb cursor))"
    and "snd (snd (snd (LockList glob s matchpath cursor limit))) = None"
    by (auto simp: Let_def)
  moreover have "clamp_limit limit = max 1 (min 100 limit)"
    by (simp add: clamp_limit_def)
  moreover have "length (take n xs) = min n (length xs)" for n and xs :: "MetaLock list"
    by (simp add: min.commute)
  ultimately show ?thesis
    by simp
qed

theorem LockList_returns_first_accepted_witness:
  "locksBucket store2 = Some locks2 \<and> locks_wf locks2 \<and>
   fst (LockList example_glob store2 ''/test2'' 0 100) = [lock2] \<and>
   fst (LockList example_glob store2 [] 0 (- 5)) = [lock1] \<and>
   fst (LockList example_glob store2 [] 2 1000) = [lock2]"
proof -
  have h1: "locksBucket store2 = Some locks2"
    by (simp add: store2_eq)
  have ev: "locks_from locks2 0 = [lock1, lock2]" "locks_from locks2 2 = [lock2]"
    by (simp_all add: locks_from_def locks2_def lock_pair_def lock1_def lock2_def
        word_le_nat_alt)
  have ac: "\<not> accepted example_glob ''/test2'' lock1" "accepted example_glob ''/test2'' lock2"
    "accepted example_glob [] lock1" "accepted example_glob [] lock2"
    by (simp_all add: accepted_def path_Match_def example_glob_def lock1_def lock2_def)
  have cl: "clamp_limit 100 = 100" "clamp_limit (- 5) = 1" "clamp_limit 1000 = 100"
    by (simp_all add: clamp_limit_def)
  show ?thesis
    using h1 locks2_wf
      LockList_returns_first_accepted [OF h1 locks2_wf, of example_glob "''/test2''" 0 100]
      LockList_returns_first_accepted [OF h1 locks2_wf, of example_glob "[]" 0 "- 5"]
      LockList_returns_first_accepted [OF h1 locks2_wf, of example_glob "[]" 2 1000]
    by (simp add: ev ac cl)
qed

text \<open>
  C5: on a store whose id-indexed bucket is well formed, \<open>hasMore\<close> is true if and only
  if the iteration stopped at the clamped limit while a further entry existed beyond the
  last visited one; then the returned cursor is the id of the last returned lock plus one.
  Otherwise the cursor supplied is returned unchanged.  No error is returned.
\<close>

theorem LockList_hasMore_and_cursor:
  assumes "locksBucket s = Some lb" and "locks_wf lb"
    and "LockList glob s matchpath cursor limit = (locks, cursor', hasMore, err)"
  shows "(hasMore \<longleftrightarrow>
            limit_hit_before_end (accepted glob matchpath) (nat (clamp_limit limit))
              (locks_from lb cursor)) \<and>
         (hasMore \<longrightarrow> locks \<noteq> [] \<and> cursor' = ID (last locks) + 1) \<and>
         (\<not> hasMore \<longrightarrow> cursor' = cursor) \<and>
         err = None"
proof -
  let ?n = "nat (clamp_limit limit)"
  let ?es = "locks_from lb cursor"
  let ?A = "accepted glob matchpath"
  from LockList_wf [OF assms(1,2), of glob matchpath cursor limit] assms(3)
  have r: "locks = take ?n (filter ?A ?es)"
      "cursor' = (if hasMore \<and> locks \<noteq> [] then ID (last locks) + 1 else cursor)"
      "hasMore \<longleftrightarrow> limit_hit_before_end ?A ?n ?es" "err = None"
    by (auto simp: Let_def)
  have "0 < ?n"
    using clamp_limit_range [of limit] by simp
  then have "hasMore \<Longrightarrow> locks \<noteq> []"
    using r(1,3) limit_hit_nonempty [of ?A ?n ?es] by simp
  then show ?thesis
    using r by auto
qed

theorem LockList_hasMore_and_cursor_witness:
  "locksBucket store2 = Some locks2 \<and> locks_wf locks2 \<and>
   LockList example_glob store2 [] 0 1 = ([lock1], 2, True, None) \<and>
   limit_hit_before_end (accepted example_glob []) (nat (clamp_limit 1)) (locks_from locks2 0) \<and>
   LockList example_glob store2 [] 2 1 = ([lock2], 2, False, None) \<and>
   \<not> limit_hit_before_end (accepted example_glob []) (nat (clamp_limit 1)) (locks_from locks2 2)"
proof -
  have h1: "locksBucket store2 = Some locks2"
    by (simp add: store2_eq)
  have e1: "LockList example_glob store2 [] 0 1 = ([lock1], 2, True, None)"
    by (simp add: LockList_def db_View_def clamp_limit_def cursor_Seek_def store2_eq locks2_def
        lock_pair_def lock1_def lock2_def itob_less)
  have e2: "LockList example_glob store2 [] 2 1 = ([lock2], 2, False, None)"
    by (simp add: LockList_def db_View_def clamp_limit_def cursor_Seek_def store2_eq locks2_def
        lock_pair_def lock1_def lock2_def itob_less)
  show ?thesis
    using h1 locks2_wf e1 e2
      LockList_hasMore_and_cursor [OF h1 locks2_wf e1]
      LockList_hasMore_and_cursor [OF h1 locks2_wf e2]
    by simp
qed

lemma loop_all_skipped:
  assumes "\<forall>name. path_Match glob mp name = None"
    and "list_all (\<lambda>kv. decodable (snd kv)) ps"
  shows "LockList_loop glob mp ps n acc = (if n > 0 then (None, [], acc) else (None, ps, acc))"
  using assms(2)
proof (induction ps)
  case Nil
  show ?case by simp
next
  case (Cons kv ps)
  obtain k v where kv: "kv = (k, v)" by (cases kv)
  from Cons.prems kv obtain l where v: "v = Gob l"
    by (cases v) simp_all
  have ne: "mp \<noteq> []"
    using assms(1) by (auto simp: path_Match_def)
  show ?case
    using Cons kv v ne assms(1) by simp
qed

text \<open>
  C10: when the pattern is malformed, that is when matching it reports the syntax error
  for every path, \<open>LockList\<close> on a store whose locks all decode returns the empty list, the
  cursor supplied, \<open>hasMore = false\<close> and no error: every entry is skipped.
\<close>

theorem LockList_malformed_pattern:
  assumes "locksBucket s = Some lb"
    and "list_all (\<lambda>kv. decodable (snd kv)) (pairs lb)"
    and "\<forall>name. path_Match glob matchpath name = None"
  shows "LockList glob s matchpath cursor limit = ([], cursor, False, None)"
proof -
  have "set (cursor_Seek lb (itob cursor)) \<subseteq> set (pairs lb)"
    by (auto simp: cursor_Seek_def dest: set_dropWhileD)
  then have "list_all (\<lambda>kv. decodable (snd kv)) (cursor_Seek lb (itob cursor))"
    using assms(2) by (auto simp: list_all_iff)
  from loop_all_skipped [OF assms(3) this, of "clamp_limit limit" "[]"]
  have "LockList_loop glob matchpath (cursor_Seek lb (itob cursor)) (clamp_limit limit) [] =
      (None, [], [])"
    using clamp_limit_range [of limit] by simp
  then show ?thesis
    using assms(1) by (simp add: LockList_def db_View_def)
qed

theorem LockList_malformed_pattern_witness:
  "locksBucket store2 = Some locks2 \<and>
   list_all (\<lambda>kv. decodable (snd kv)) (pairs locks2) \<and>
   (\<forall>name. path_Match example_glob ''['' name = None) \<and>
   LockList example_glob store2 ''['' 0 100 = ([], 0, False, None)"
proof -
  have h1: "locksBucket store2 = Some locks2"
    by (simp add: store2_eq)
  have h2: "list_all (\<lambda>kv. decodable (snd kv)) (pairs locks2)"
    by (simp add: locks2_def lock_pair_def)
  have h3: "\<forall>name. path_Match example_glob ''['' name = None"
    by (simp add: path_Match_def example_glob_def)
  show ?thesis
    using h1 h2 h3 LockList_malformed_pattern [OF h1 h2 h3, of 0 100] by simp
qed

section \<open>Authentication\<close>

lemma IndexByte_None: "(IndexByte cs c = None) = (c \<notin> set cs)"
  by (induction cs) auto

lemma IndexByte_first:
  "c \<notin> set user \<Longrightarrow> IndexByte (user @ c # password) c = Some (length user)"
  by (induction user) auto

lemma Basic_prefix:
  "HasPrefix (''Basic '' @ enc) ''Basic ''"
  "TrimPrefix (''Basic '' @ enc) ''Basic '' = enc"
  by (simp_all add: HasPrefix_def TrimPrefix_def)

lemma HasPrefix_iff: "HasPrefix a p = (\<exists>enc. a = p @ enc)"
  unfolding HasPrefix_def by (metis append_eq_conv_conj append_take_drop_id)

lemma authenticate_users_only:
  "usersBucket s' = usersBucket s \<Longrightarrow> authenticate cfg b64 s' a = authenticate cfg b64 s a"
  by (auto simp: authenticate_def db_View_def Let_def split: option.splits)

lemma admin_authenticates: "authenticate example_cfg example_b64 s admin_auth"
  by (simp add: authenticate_def admin_auth_def example_cfg_def example_b64_def HasPrefix_def
      TrimPrefix_def)

lemma store_bob_users:
  "usersBucket store_bob = Some \<lparr>pairs = [(''bob'', ''hunter2'')], sequence = 0\<rparr>"
  by (simp add: store_bob_def AddUser_def db_Update_def NewMetaStore_def empty_bucket_def
      bucket_Put_def MaxKeySize_def)

lemma store_bob_empty_users:
  "usersBucket store_bob_empty = Some \<lparr>pairs = [(''bob'', [])], sequence = 0\<rparr>"
  by (simp add: store_bob_empty_def AddUser_def db_Update_def NewMetaStore_def empty_bucket_def
      bucket_Put_def MaxKeySize_def)

text \<open>
  C7, as the claim states it, fails: \<open>AddUser("bob", "")\<close> stores the empty secret for
  \<open>bob\<close>; the credential \<open>Basic Ym9iOg==\<close> decodes to user \<open>bob\<close> and the empty password, which
  are not the administrator's; the stored secret equals the supplied password, and
  \<open>authenticate\<close> returns false.
\<close>

theorem authenticate_empty_secret_counterexample:
  "\<not> IsPublic example_cfg \<and>
   example_b64 ''Ym9iOg=='' = Some (''bob'' @ CHR '':'' # []) \<and>
   CHR '':'' \<notin> set ''bob'' \<and>
   \<not> checkBasicAuth example_cfg ''bob'' [] True \<and>
   fst (AddUser ''bob'' [] NewMetaStore) = None \<and>
   map_option (\<lambda>ub. bucket_Get ub ''bob'') (usersBucket store_bob_empty) = Some (Some []) \<and>
   \<not> authenticate example_cfg example_b64 store_bob_empty (''Basic '' @ ''Ym9iOg=='')"
  by (simp add: store_bob_empty_users example_cfg_def example_b64_def authenticate_def
      HasPrefix_def TrimPrefix_def db_View_def bucket_Get_def
      AddUser_def db_Update_def NewMetaStore_def empty_bucket_def bucket_Put_def MaxKeySize_def)

text \<open>
  C7, amended: \<open>authenticate\<close> returns true when the store is public.  Otherwise it
  returns false for the empty credential, for a credential that does not start with
  \<open>Basic \<close>, for one whose rest does not decode, and for one that decodes to a string without
  a colon.  When the rest decodes to \<open>user:password\<close>, split at the first colon, it returns
  true if \<open>checkBasicAuth\<close> accepts the pair as the administrator's, and otherwise returns
  true if and only if the stored secret of the user is not empty and equals the password.
\<close>

theorem authenticate_cases:
  "(IsPublic cfg \<longrightarrow> authenticate cfg b64 s a) \<and>
   (\<not> IsPublic cfg \<and> a = [] \<longrightarrow> \<not> authenticate cfg b64 s a) \<and>
   (\<not> IsPublic cfg \<and> (\<forall>enc. a \<noteq> ''Basic '' @ enc) \<longrightarrow> \<not> authenticate cfg b64 s a) \<and>
   (\<not> IsPublic cfg \<and> a = ''Basic '' @ enc \<and> b64 enc = None \<longrightarrow> \<not> authenticate cfg b64 s a) \<and>
   (\<not> IsPublic cfg \<and> a = ''Basic '' @ enc \<and> b64 enc = Some cs \<and> CHR '':'' \<notin> set cs \<longrightarrow>
      \<not> authenticate cfg b64 s a) \<and>
   (\<not> IsPublic cfg \<and> a = ''Basic '' @ enc \<and> b64 enc = Some (user @ CHR '':'' # password) \<and>
    CHR '':'' \<notin> set user \<longrightarrow>
      authenticate cfg b64 s a =
        (checkBasicAuth cfg user password True \<or>
         password \<noteq> [] \<and>
         (\<exists>ub. usersBucket s = Some ub \<and> bucket_Get ub user = Some password)))"
proof (intro conjI impI)
  assume "IsPublic cfg"
  then show "authenticate cfg b64 s a" by (simp add: authenticate_def)
next
  assume "\<not> IsPublic cfg \<and> a = []"
  then show "\<not> authenticate cfg b64 s a" by (simp add: authenticate_def)
next
  assume h: "\<not> IsPublic cfg \<and> (\<forall>enc. a \<noteq> ''Basic '' @ enc)"
  then have "\<not> HasPrefix a ''Basic ''" by (simp add: HasPrefix_iff)
  with h show "\<not> authenticate cfg b64 s a" by (simp add: authenticate_def)
next
  assume "\<not> IsPublic cfg \<and> a = ''Basic '' @ enc \<and> b64 enc = None"
  then show "\<not> authenticate cfg b64 s a"
    using Basic_prefix [of enc] by (simp add: authenticate_def)
next
  assume "\<not> IsPublic cfg \<and> a = ''Basic '' @ enc \<and> b64 enc = Some cs \<and> CHR '':'' \<notin> set cs"
  then show "\<not> authenticate cfg b64 s a"
    using Basic_prefix [of enc] IndexByte_None [of cs "CHR '':''"]
    by (simp add: authenticate_def)
next
  assume a: "\<not> IsPublic cfg \<and> a = ''Basic '' @ enc \<and>
    b64 enc = Some (user @ CHR '':'' # password) \<and> CHR '':'' \<notin> set user"
  then have i: "IndexByte (user @ CHR '':'' # password) CHR '':'' = Some (length user)"
    by (simp add: IndexByte_first)
  show "authenticate cfg b64 s a =
        (checkBasicAuth cfg user password True \<or>
         password \<noteq> [] \<and>
         (\<exists>ub. usersBucket s = Some ub \<and> bucket_Get ub user = Some password))"
    using a i Basic_prefix [of enc]
    by (auto simp: authenticate_def db_View_def Let_def
        split: option.splits)
qed

theorem authenticate_cases_witness:
  "authenticate (example_cfg\<lparr>IsPublic := True\<rparr>) example_b64 store_bob [] \<and>
   \<not> authenticate example_cfg example_b64 store_bob [] \<and>
   \<not> authenticate example_cfg example_b64 store_bob ''Bearer Ym9iOmh1bnRlcjI='' \<and>
   \<not> authenticate example_cfg example_b64 store_bob (''Basic '' @ ''!!!'') \<and>
   \<not> authenticate example_cfg example_b64 store_bob (''Basic '' @ ''YWRtaW5zZWNyZXQ='') \<and>
   authenticate example_cfg example_b64 store_bob (''Basic '' @ ''YWRtaW46c2VjcmV0'') \<and>
   authenticate example_cfg example_b64 store_bob (''Basic '' @ ''Ym9iOmh1bnRlcjI='') \<and>
   \<not> authenticate example_cfg example_b64 NewMetaStore (''Basic '' @ ''Ym9iOmh1bnRlcjI='')"
proof -
  have np: "\<not> IsPublic example_cfg" "IsPublic (example_cfg\<lparr>IsPublic := True\<rparr>)"
    by (simp_all add: example_cfg_def)
  have sch: "\<forall>enc. ''Bearer Ym9iOmh1bnRlcjI='' \<noteq> ''Basic '' @ enc"
    by simp
  have d: "example_b64 ''!!!'' = None"
    "example_b64 ''YWRtaW5zZWNyZXQ='' = Some ''adminsecret''"
    "example_b64 ''YWRtaW46c2VjcmV0'' = Some (''admin'' @ CHR '':'' # ''secret'')"
    "example_b64 ''Ym9iOmh1bnRlcjI='' = Some (''bob'' @ CHR '':'' # ''hunter2'')"
    by (simp_all add: example_b64_def)
  have c: "CHR '':'' \<notin> set ''adminsecret''" "CHR '':'' \<notin> set ''admin''" "CHR '':'' \<notin> set ''bob''"
    by simp_all
  have adm: "checkBasicAuth example_cfg ''admin'' ''secret'' True"
    "\<not> checkBasicAuth example_cfg ''bob'' ''hunter2'' True"
    by (simp_all add: example_cfg_def)
  have bob: "\<exists>ub. usersBucket store_bob = Some ub \<and> bucket_Get ub ''bob'' = Some ''hunter2''"
    by (simp add: store_bob_users bucket_Get_def)
  have nobody: "\<not> (\<exists>ub. usersBucket NewMetaStore = Some ub \<and>
      bucket_Get ub ''bob'' = Some ''hunter2'')"
    by (simp add: NewMetaStore_def empty_bucket_def bucket_Get_def)
  have "authenticate (example_cfg\<lparr>IsPublic := True\<rparr>) example_b64 store_bob []"
    using authenticate_cases [of "example_cfg\<lparr>IsPublic := True\<rparr>" example_b64 store_bob "[]"] np
    by blast
  moreover have "\<not> authenticate example_cfg example_b64 store_bob []"
    using authenticate_cases [of example_cfg example_b64 store_bob "[]"] np by blast
  moreover have "\<not> authenticate example_cfg example_b64 store_bob ''Bearer Ym9iOmh1bnRlcjI=''"
    using authenticate_cases [of example_cfg example_b64 store_bob "''Bearer Ym9iOmh1bnRlcjI=''"]
      np sch by blast
  moreover have "\<not> authenticate example_cfg example_b64 store_bob (''Basic '' @ ''!!!'')"
    using authenticate_cases [of example_cfg example_b64 store_bob "''Basic '' @ ''!!!''" "''!!!''"]
      np d(1) by blast
  moreover have "\<not> authenticate example_cfg example_b64 store_bob
      (''Basic '' @ ''YWRtaW5zZWNyZXQ='')"
    using authenticate_cases [of example_cfg example_b64 store_bob
        "''Basic '' @ ''YWRtaW5zZWNyZXQ=''" "''YWRtaW5zZWNyZXQ=''" "''adminsecret''"]
      np d(2) c(1) by blast
  moreover have "authenticate example_cfg example_b64 store_bob
      (''Basic '' @ ''YWRtaW46c2VjcmV0'')"
    using authenticate_cases [of example_cfg example_b64 store_bob
        "''Basic '' @ ''YWRtaW46c2VjcmV0''" "''YWRtaW46c2VjcmV0''" _ "''admin''" "''secret''"]
      np d(3) c(2) adm(1) by blast
  moreover have "authenticate example_cfg example_b64 store_bob
      (''Basic '' @ ''Ym9iOmh1bnRlcjI='')"
    using authenticate_cases [of example_cfg example_b64 store_bob
        "''Basic '' @ ''Ym9iOmh1bnRlcjI=''" "''Ym9iOmh1bnRlcjI=''" _ "''bob''" "''hunter2''"]
      np d(4) c(3) bob by blast
  moreover have "\<not> authenticate example_cfg example_b64 NewMetaStore
      (''Basic '' @ ''Ym9iOmh1bnRlcjI='')"
    using authenticate_cases [of example_cfg example_b64 NewMetaStore
        "''Basic '' @ ''Ym9iOmh1bnRlcjI=''" "''Ym9iOmh1bnRlcjI=''" _ "''bob''" "''hunter2''"]
      np d(4) c(3) adm(2) nobody by blast
  ultimately show ?thesis
    by blast
qed

section \<open>Put and Get\<close>

lemma UnsafeGet_absent:
  "objectsBucket s = Some ob \<Longrightarrow> bucket_Get ob (vOid v) = None \<Longrightarrow>
   UnsafeGet s v = Inl ErrObjectNotFound"
  by (simp add: UnsafeGet_def db_View_def)

lemma UnsafeGet_present:
  "objectsBucket s = Some ob \<Longrightarrow> bucket_Get ob (vOid v) = Some (Gob m) \<Longrightarrow>
   UnsafeGet s v = Inr m"
  by (simp add: UnsafeGet_def db_View_def)

lemma store_abc_eq: "store_abc = NewMetaStore\<lparr>objectsBucket := Some objects_abc\<rparr>"
  using admin_authenticates [of NewMetaStore]
  by (simp add: store_abc_def objects_abc_def object42_def request42_def Put_def Get_def
      UnsafeGet_def db_View_def db_Update_def bucket_Put_def MaxKeySize_def NewMetaStore_def
      empty_bucket_def bucket_Get_def Let_def)

text \<open>
  C6, as the claim states it, fails for the empty oid: the credential is accepted and the
  oid is absent, yet \<open>Put\<close> persists nothing and returns the engine's error for an empty
  key.
\<close>

theorem Put_empty_oid_counterexample:
  "authenticate example_cfg example_b64 NewMetaStore admin_auth \<and>
   map_option (\<lambda>ob. bucket_Get ob []) (objectsBucket NewMetaStore) = Some None \<and>
   Put example_cfg example_b64 NewMetaStore
     \<lparr>vOid = [], vSize = 42, vAuthorization = admin_auth\<rparr> =
     (Inl ErrKeyRequired, NewMetaStore)"
proof -
  have "Put example_cfg example_b64 NewMetaStore
      \<lparr>vOid = [], vSize = 42, vAuthorization = admin_auth\<rparr> =
     (Inl ErrKeyRequired, NewMetaStore)"
    using admin_authenticates [of NewMetaStore]
    by (simp add: Put_def Get_def UnsafeGet_def db_View_def db_Update_def bucket_Put_def
        NewMetaStore_def empty_bucket_def bucket_Get_def)
  then show ?thesis
    using admin_authenticates [of NewMetaStore]
    by (simp add: NewMetaStore_def empty_bucket_def bucket_Get_def)
qed

text \<open>
  C6, amended: for a credential that \<open>authenticate\<close> accepts and an oid that is a valid key
  of the engine (not empty, at most 32768 bytes), in a store whose objects bucket exists:
  if the oid is absent, \<open>Put\<close> persists the record and returns it with \<open>Existing = false\<close>, and
  a following \<open>Get\<close> with the same credential returns the record with that oid and size; if
  a record is stored under the oid, \<open>Put\<close> returns that record with \<open>Existing = true\<close> and
  leaves the store, and so the stored size, unchanged.
\<close>

theorem Put_then_Get:
  assumes auth: "authenticate cfg b64 s (vAuthorization v)"
    and ob: "objectsBucket s = Some ob"
    and key: "vOid v \<noteq> []" "length (vOid v) \<le> MaxKeySize"
  shows "(bucket_Get ob (vOid v) = None \<longrightarrow>
            (\<exists>s'. Put cfg b64 s v =
                    (Inr \<lparr>Oid = vOid v, Size = vSize v, Existing = False\<rparr>, s') \<and>
                  Get cfg b64 s' v = Inr \<lparr>Oid = vOid v, Size = vSize v, Existing = False\<rparr>)) \<and>
         (\<forall>m. bucket_Get ob (vOid v) = Some (Gob m) \<longrightarrow>
            Put cfg b64 s v = (Inr (m\<lparr>Existing := True\<rparr>), s) \<and> Get cfg b64 s v = Inr m)"
proof (intro conjI allI impI)
  assume absent: "bucket_Get ob (vOid v) = None"
  let ?meta = "\<lparr>Oid = vOid v, Size = vSize v, Existing = False\<rparr>"
  let ?s' = "s\<lparr>objectsBucket :=
      Some (ob\<lparr>pairs := put_pair (vOid v) (Gob ?meta) (pairs ob)\<rparr>)\<rparr>"
  have g: "Get cfg b64 s v = Inl ErrObjectNotFound"
    using auth UnsafeGet_absent [OF ob absent] by (simp add: Get_def)
  have p: "Put cfg b64 s v = (Inr ?meta, ?s')"
    using auth g ob key by (simp add: Put_def db_Update_def bucket_Put_def Let_def)
  have "authenticate cfg b64 ?s' (vAuthorization v)"
    using auth authenticate_users_only [of ?s' s] by simp
  moreover have "UnsafeGet ?s' v = Inr ?meta"
    by (rule UnsafeGet_present [of _ "ob\<lparr>pairs := put_pair (vOid v) (Gob ?meta) (pairs ob)\<rparr>"])
       (simp_all add: bucket_Get_put_pair)
  ultimately have "Get cfg b64 ?s' v = Inr ?meta"
    by (simp add: Get_def)
  with p show "\<exists>s'. Put cfg b64 s v = (Inr ?meta, s') \<and> Get cfg b64 s' v = Inr ?meta"
    by blast
next
  fix m
  assume present: "bucket_Get ob (vOid v) = Some (Gob m)"
  have g: "Get cfg b64 s v = Inr m"
    using auth UnsafeGet_present [OF ob present] by (simp add: Get_def)
  then show "Put cfg b64 s v = (Inr (m\<lparr>Existing := True\<rparr>), s)"
    using auth by (simp add: Put_def)
  show "Get cfg b64 s v = Inr m" by (rule g)
qed

theorem Put_then_Get_witness:
  "authenticate example_cfg example_b64 NewMetaStore (vAuthorization request42) \<and>
   objectsBucket NewMetaStore = Some empty_bucket \<and>
   vOid request42 \<noteq> [] \<and> length (vOid request42) \<le> MaxKeySize \<and>
   bucket_Get (empty_bucket :: MetaObject gob bucket) (vOid request42) = None \<and>
   fst (Put example_cfg example_b64 NewMetaStore request42) = Inr object42 \<and>
   Get example_cfg example_b64 store_abc request42 = Inr object42 \<and>
   bucket_Get objects_abc (vOid request7) = Some (Gob object42) \<and>
   Put example_cfg example_b64 store_abc request7 =
     (Inr (object42\<lparr>Existing := True\<rparr>), store_abc)"
proof -
  have h1: "authenticate example_cfg example_b64 NewMetaStore (vAuthorization request42)"
    using admin_authenticates [of NewMetaStore] by (simp add: request42_def)
  have h2: "objectsBucket NewMetaStore = Some empty_bucket"
    by (simp add: NewMetaStore_def)
  have h3: "vOid request42 \<noteq> []" "length (vOid request42) \<le> MaxKeySize"
    by (simp_all add: MaxKeySize_def request42_def)
  have h4: "bucket_Get (empty_bucket :: MetaObject gob bucket) (vOid request42) = None"
    by (simp add: bucket_Get_def empty_bucket_def)
  have k1: "authenticate example_cfg example_b64 store_abc (vAuthorization request7)"
    using admin_authenticates [of store_abc] by (simp add: request7_def)
  have k2: "objectsBucket store_abc = Some objects_abc"
    by (simp add: store_abc_eq)
  have k3: "vOid request7 \<noteq> []" "length (vOid request7) \<le> MaxKeySize"
    by (simp_all add: MaxKeySize_def request7_def)
  have k4: "bucket_Get objects_abc (vOid request7) = Some (Gob object42)"
    by (simp add: bucket_Get_def objects_abc_def request7_def)
  have o: "\<lparr>Oid = vOid request42, Size = vSize request42, Existing = False\<rparr> = object42"
    by (simp add: request42_def object42_def)
  from Put_then_Get [OF h1 h2 h3]
  have "bucket_Get (empty_bucket :: MetaObject gob bucket) (vOid request42) = None \<longrightarrow>
      (\<exists>s'. Put example_cfg example_b64 NewMetaStore request42 = (Inr object42, s') \<and>
            Get example_cfg example_b64 s' request42 = Inr object42)"
    unfolding o by (rule conjunct1)
  with h4 obtain s' where s':
    "Put example_cfg example_b64 NewMetaStore request42 = (Inr object42, s')"
    "Get example_cfg example_b64 s' request42 = Inr object42"
    by blast
  then have "s' = store_abc"
    by (simp add: store_abc_def)
  with s' have a: "fst (Put example_cfg example_b64 NewMetaStore request42) = Inr object42"
    "Get example_cfg example_b64 store_abc request42 = Inr object42"
    by simp_all
  from Put_then_Get [OF k1 k2 k3] k4
  have b: "Put example_cfg example_b64 store_abc request7 =
      (Inr (object42\<lparr>Existing := True\<rparr>), store_abc)"
    by blast
  show ?thesis
    using h1 h2 h3 h4 k4 a b by simp
qed

section \<open>The invariant of the lock buckets\<close>

lemma set_put_pair: "set (put_pair k v ps) \<subseteq> insert (k, v) (set ps)"
  by (induction ps) (auto split: if_splits)

lemma put_pair_mem: "(k, v) \<in> set (put_pair k v ps)"
  by (induction ps) auto

lemma sorted_put_pair:
  "sorted_wrt (<) (map fst ps) \<Longrightarrow> sorted_wrt (<) (map fst (put_pair k v ps))"
proof (induction ps)
  case Nil
  show ?case by simp
next
  case (Cons a ps)
  have "\<forall>x\<in>set (put_pair k v ps). x = (k, v) \<or> x \<in> set ps"
    using set_put_pair [of k v ps] by auto
  then show ?case
    using Cons by (cases a) (auto simp: not_less)
qed

lemma sorted_filter_pairs:
  "sorted_wrt (<) (map fst ps) \<Longrightarrow> sorted_wrt (<) (map fst (filter P ps))"
  by (induction ps) auto

lemma map_of_None_iff: "(map_of ps k = None) = (k \<notin> fst ` set ps)"
  by (simp add: map_of_eq_None_iff)

text \<open>A successful \<open>LockAdd\<close>, and the store after a failed one.\<close>

lemma LockAdd_success:
  assumes "locksBucket s = Some lb" "lockPathsBucket s = Some pb"
    and "bucket_Get pb p = None" and "p \<noteq> []" "length p \<le> MaxKeySize"
  shows "LockAdd p ow t s =
     ((Some \<lparr>ID = sequence pb + 1, Path = p, Owner = ow, LockedAt = t\<rparr>, None),
      s\<lparr>locksBucket := Some (lb\<lparr>pairs := put_pair (itob (sequence pb + 1))
              (Gob \<lparr>ID = sequence pb + 1, Path = p, Owner = ow, LockedAt = t\<rparr>) (pairs lb)\<rparr>),
        lockPathsBucket := Some (pb\<lparr>sequence := sequence pb + 1,
              pairs := put_pair p (Gob \<lparr>ID = sequence pb + 1, Path = p, Owner = ow, LockedAt = t\<rparr>)
                 (pairs pb)\<rparr>)\<rparr>)"
  using assms
  by (simp add: LockAdd_def LockAdd_tx_def db_Update_def bucket_NextSequence_def Let_def
      bucket_Put_def itob_nonempty length_itob MaxKeySize_def)

lemma LockAdd_failure_unchanged:
  "LockAdd p ow t s = ((r, Some e), s') \<Longrightarrow> s' = s"
  by (auto simp: LockAdd_def db_Update_def split: prod.splits option.splits if_splits)

lemma locks_inv_iff:
  "locks_inv s =
     (\<exists>lb pb. locksBucket s = Some lb \<and> lockPathsBucket s = Some pb \<and>
        sorted_wrt (<) (map fst (pairs lb)) \<and> sync_pairs (pairs lb) (pairs pb) (sequence pb))"
proof -
  have a: "(case v of Gob l \<Rightarrow> P l | Junk bs \<Rightarrow> False) = (\<exists>l. v = Gob l \<and> P l)"
    for v :: "MetaLock gob" and P
    by (cases v) auto
  have b: "((\<forall>kv\<in>S. \<exists>l. snd kv = Gob l \<and> P kv l) \<and> (\<forall>kv\<in>S. \<exists>l. snd kv = Gob l \<and> Q l)) =
      (\<forall>kv\<in>S. \<exists>l. snd kv = Gob l \<and> P kv l \<and> Q l)"
    for S :: "(string \<times> MetaLock gob) set" and P Q
    by fastforce
  show ?thesis
  proof (cases "locksBucket s")
    case None
    then show ?thesis by (simp add: locks_inv_def)
  next
    case lb: (Some lb)
    show ?thesis
    proof (cases "lockPathsBucket s")
      case None
      then show ?thesis using lb by (simp add: locks_inv_def)
    next
      case pb: (Some pb)
      have "locks_inv s =
        (sorted_wrt (<) (map fst (pairs lb)) \<and>
         ((\<forall>kv\<in>set (pairs lb). \<exists>l. snd kv = Gob l \<and>
              (fst kv = itob (ID l) \<and> map_of (pairs pb) (Path l) = Some (Gob l))) \<and>
          (\<forall>kv\<in>set (pairs lb). \<exists>l. snd kv = Gob l \<and> ID l \<le> sequence pb)) \<and>
         (\<forall>kv\<in>set (pairs pb). \<exists>l. snd kv = Gob l \<and> fst kv = Path l \<and>
              map_of (pairs lb) (itob (ID l)) = Some (Gob l)))"
        using lb pb
        by (auto simp: locks_inv_def locks_in_sync_def list_all_iff a bucket_Get_def)
      then show ?thesis
        unfolding b using lb pb by (auto simp: sync_pairs_def)
    qed
  qed
qed

text \<open>
  The two writes of \<open>LockAdd\<close> keep the buckets in sync as long as the counter does not
  wrap around, and so do the two deletions of \<open>LockDelete\<close>.
\<close>

lemma sync_put:
  assumes sy: "sync_pairs lb pb q" and absent: "map_of pb p = None" and nowrap: "q < q + 1"
    and m: "ID m = q + 1" "Path m = p"
  shows "sync_pairs (put_pair (itob (q + 1)) (Gob m) lb) (put_pair p (Gob m) pb) (q + 1)"
  unfolding sync_pairs_def
proof (intro conjI ballI)
  fix kv
  assume "kv \<in> set (put_pair (itob (q + 1)) (Gob m) lb)"
  then consider "kv = (itob (q + 1), Gob m)" | "kv \<in> set lb"
    using set_put_pair [of "itob (q + 1)" "Gob m" lb] by auto
  then show "\<exists>l. snd kv = Gob l \<and> fst kv = itob (ID l) \<and>
      map_of (put_pair p (Gob m) pb) (Path l) = Some (Gob l) \<and> ID l \<le> q + 1"
  proof cases
    case 1
    then show ?thesis using m by (auto simp: map_of_put_pair)
  next
    case 2
    with sy obtain l where l: "snd kv = Gob l" "fst kv = itob (ID l)"
      "map_of pb (Path l) = Some (Gob l)" "ID l \<le> q"
      by (auto simp: sync_pairs_def)
    then have "Path l \<noteq> p" using absent by auto
    moreover have "ID l \<le> q + 1" using l(4) nowrap by simp
    ultimately show ?thesis using l by (auto simp: map_of_put_pair)
  qed
next
  fix kv
  assume "kv \<in> set (put_pair p (Gob m) pb)"
  then consider "kv = (p, Gob m)" | "kv \<in> set pb"
    using set_put_pair [of p "Gob m" pb] by auto
  then show "\<exists>l. snd kv = Gob l \<and> fst kv = Path l \<and>
      map_of (put_pair (itob (q + 1)) (Gob m) lb) (itob (ID l)) = Some (Gob l)"
  proof cases
    case 1
    then show ?thesis using m by (auto simp: map_of_put_pair)
  next
    case 2
    with sy obtain l where l: "snd kv = Gob l" "fst kv = Path l"
      "map_of lb (itob (ID l)) = Some (Gob l)"
      by (auto simp: sync_pairs_def)
    from l(3) have "(itob (ID l), Gob l) \<in> set lb" by (rule map_of_SomeD)
    with sy have "ID l \<le> q" by (fastforce simp: sync_pairs_def)
    then have "ID l \<noteq> q + 1" using nowrap by auto
    then show ?thesis using l by (auto simp: map_of_put_pair itob_inj)
  qed
qed

lemma sync_delete:
  assumes sy: "sync_pairs lb pb q" and m: "map_of lb (itob i) = Some (Gob m)"
  shows "sync_pairs (filter (\<lambda>kv. fst kv \<noteq> itob i) lb) (filter (\<lambda>kv. fst kv \<noteq> Path m) pb) q"
proof -
  from m have "(itob i, Gob m) \<in> set lb" by (rule map_of_SomeD)
  with sy have mm: "itob i = itob (ID m)" "map_of pb (Path m) = Some (Gob m)"
    by (fastforce simp: sync_pairs_def)+
  show ?thesis
    unfolding sync_pairs_def
  proof (intro conjI ballI)
    fix kv
    assume "kv \<in> set (filter (\<lambda>kv. fst kv \<noteq> itob i) lb)"
    then have kv: "kv \<in> set lb" "fst kv \<noteq> itob i" by auto
    with sy obtain l where l: "snd kv = Gob l" "fst kv = itob (ID l)"
      "map_of pb (Path l) = Some (Gob l)" "ID l \<le> q"
      by (auto simp: sync_pairs_def)
    have "Path l \<noteq> Path m"
    proof
      assume "Path l = Path m"
      with l(3) mm(2) have "Some (Gob l) = Some (Gob m)" by metis
      then have "ID l = ID m" by simp
      with l(2) mm(1) kv(2) show False by metis
    qed
    then show "\<exists>l. snd kv = Gob l \<and> fst kv = itob (ID l) \<and>
        map_of (filter (\<lambda>kv. fst kv \<noteq> Path m) pb) (Path l) = Some (Gob l) \<and> ID l \<le> q"
      using l by (auto simp: map_of_delete)
  next
    fix kv
    assume "kv \<in> set (filter (\<lambda>kv. fst kv \<noteq> Path m) pb)"
    then have kv: "kv \<in> set pb" "fst kv \<noteq> Path m" by auto
    with sy obtain l where l: "snd kv = Gob l" "fst kv = Path l"
      "map_of lb (itob (ID l)) = Some (Gob l)"
      by (auto simp: sync_pairs_def)
    have "itob (ID l) \<noteq> itob i"
    proof
      assume "itob (ID l) = itob i"
      with l(3) m have "Some (Gob l) = Some (Gob m)" by metis
      then have "Path l = Path m" by simp
      with l(2) kv(2) show False by metis
    qed
    then show "\<exists>l. snd kv = Gob l \<and> fst kv = Path l \<and>
        map_of (filter (\<lambda>kv. fst kv \<noteq> itob i) lb) (itob (ID l)) = Some (Gob l)"
      using l by (auto simp: map_of_delete)
  qed
qed

lemma unat_succ:
  fixes q :: "64 word"
  assumes "unat q + 1 < 2 ^ 64"
  shows "unat (q + 1) = unat q + 1" and "q < q + 1"
proof -
  show u: "unat (q + 1) = unat q + 1"
    using assms by (simp add: unat_word_ariths)
  show "q < q + 1"
    using u by (simp add: word_less_nat_alt)
qed

lemma LockAdd_under_inv:
  assumes inv: "locks_inv s"
  shows "(snd (LockAdd p ow t s) = s \<and> snd (fst (LockAdd p ow t s)) \<noteq> None) \<or>
         (\<exists>lb pb m. locksBucket s = Some lb \<and> lockPathsBucket s = Some pb \<and>
            bucket_Get pb p = None \<and> ID m = sequence pb + 1 \<and> Path m = p \<and>
            LockAdd p ow t s =
              ((Some m, None),
               s\<lparr>locksBucket := Some (lb\<lparr>pairs := put_pair (itob (sequence pb + 1)) (Gob m) (pairs lb)\<rparr>),
                 lockPathsBucket := Some (pb\<lparr>sequence := sequence pb + 1,
                     pairs := put_pair p (Gob m) (pairs pb)\<rparr>)\<rparr>))"
proof -
  from inv obtain lb pb where b: "locksBucket s = Some lb" "lockPathsBucket s = Some pb"
    and sy: "sync_pairs (pairs lb) (pairs pb) (sequence pb)"
    by (auto simp: locks_inv_iff)
  show ?thesis
  proof (cases "bucket_Get pb p")
    case (Some v)
    then have "(p, v) \<in> set (pairs pb)"
      by (auto simp: bucket_Get_def dest: map_of_SomeD)
    with sy obtain l where "v = Gob l"
      by (fastforce simp: sync_pairs_def)
    with Some have "\<not> len_is_zero (bucket_Get pb p)" by simp
    from LockAdd_duplicate [OF b(2) this] show ?thesis by simp
  next
    case None
    show ?thesis
    proof (cases "p \<noteq> [] \<and> length p \<le> MaxKeySize")
      case True
      then show ?thesis
        using LockAdd_success [OF b None, of ow t] b None by auto
    next
      case False
      then have "LockAdd p ow t s = ((None, Some (if p = [] then ErrKeyRequired else ErrKeyTooLarge)), s)"
        using b None
        by (auto simp: LockAdd_def LockAdd_tx_def db_Update_def bucket_NextSequence_def Let_def
            bucket_Put_def itob_nonempty length_itob MaxKeySize_def)
      then show ?thesis by simp
    qed
  qed
qed

lemma LockDelete_success_form:
  assumes "locksBucket s = Some lb" "lockPathsBucket s = Some pb"
    and "fst (LockDelete i ow f s) = Inr m"
  shows "bucket_Get lb (itob i) = Some (Gob m) \<and>
         snd (LockDelete i ow f s) =
           s\<lparr>locksBucket := Some (bucket_Delete lb (itob i)),
             lockPathsBucket := Some (bucket_Delete pb (Path m))\<rparr>"
proof (cases "bucket_Get lb (itob i)")
  case None
  then show ?thesis
    using assms by (simp add: LockDelete_def LockDelete_tx_def db_Update_def)
next
  case (Some v)
  show ?thesis
  proof (cases v)
    case (Gob l)
    then show ?thesis
      using assms Some
      by (auto simp: LockDelete_def LockDelete_tx_def db_Update_def split: if_splits)
  next
    case (Junk bs)
    then show ?thesis
      using assms Some
      by (auto simp: LockDelete_def LockDelete_tx_def db_Update_def split: if_splits)
  qed
qed

lemma LockDelete_under_inv:
  assumes inv: "locks_inv s"
  shows "locks_inv (snd (LockDelete i ow f s)) \<and> seq_of (snd (LockDelete i ow f s)) = seq_of s"
proof (cases "fst (LockDelete i ow f s)")
  case (Inl e)
  then have "snd (LockDelete i ow f s) = s" by (rule LockDelete_error_unchanged)
  then show ?thesis using inv by simp
next
  case (Inr m)
  from inv obtain lb pb where b: "locksBucket s = Some lb" "lockPathsBucket s = Some pb"
    and so: "sorted_wrt (<) (map fst (pairs lb))"
    and sy: "sync_pairs (pairs lb) (pairs pb) (sequence pb)"
    by (auto simp: locks_inv_iff)
  from LockDelete_success_form [OF b Inr]
  have g: "map_of (pairs lb) (itob i) = Some (Gob m)"
    and s': "snd (LockDelete i ow f s) =
           s\<lparr>locksBucket := Some (bucket_Delete lb (itob i)),
             lockPathsBucket := Some (bucket_Delete pb (Path m))\<rparr>"
    by (simp_all add: bucket_Get_def)
  show ?thesis
    unfolding s' locks_inv_iff
    using sync_delete [OF sy g] sorted_filter_pairs [OF so] b
    by (simp add: bucket_Delete_def seq_of_def)
qed

lemma apply_op_inv:
  assumes inv: "locks_inv s"
    and nowrap: "fst (apply_op op s) \<noteq> None \<Longrightarrow> seq_of s + 1 < 2 ^ 64"
  shows "locks_inv (snd (apply_op op s)) \<and>
         (case fst (apply_op op s) of
            None \<Rightarrow> seq_of (snd (apply_op op s)) = seq_of s
          | Some i \<Rightarrow> unat i = seq_of s + 1 \<and> seq_of (snd (apply_op op s)) = seq_of s + 1)"
proof (cases op)
  case (OpLockDelete i ow f)
  then show ?thesis using LockDelete_under_inv [OF inv, of i ow f] by simp
next
  case (OpLockAdd p ow t)
  from LockAdd_under_inv [OF inv, of p ow t] show ?thesis
  proof
    assume "snd (LockAdd p ow t s) = s \<and> snd (fst (LockAdd p ow t s)) \<noteq> None"
    then show ?thesis
      using inv OpLockAdd by (auto split: prod.splits option.splits)
  next
    assume "\<exists>lb pb m. locksBucket s = Some lb \<and> lockPathsBucket s = Some pb \<and>
            bucket_Get pb p = None \<and> ID m = sequence pb + 1 \<and> Path m = p \<and>
            LockAdd p ow t s =
              ((Some m, None),
               s\<lparr>locksBucket := Some (lb\<lparr>pairs := put_pair (itob (sequence pb + 1)) (Gob m) (pairs lb)\<rparr>),
                 lockPathsBucket := Some (pb\<lparr>sequence := sequence pb + 1,
                     pairs := put_pair p (Gob m) (pairs pb)\<rparr>)\<rparr>)"
    then obtain lb pb m where b: "locksBucket s = Some lb" "lockPathsBucket s = Some pb"
      and absent: "map_of (pairs pb) p = None" and m: "ID m = sequence pb + 1" "Path m = p"
      and r: "LockAdd p ow t s =
              ((Some m, None),
               s\<lparr>locksBucket := Some (lb\<lparr>pairs := put_pair (itob (sequence pb + 1)) (Gob m) (pairs lb)\<rparr>),
                 lockPathsBucket := Some (pb\<lparr>sequence := sequence pb + 1,
                     pairs := put_pair p (Gob m) (pairs pb)\<rparr>)\<rparr>)"
      by (auto simp: bucket_Get_def)
    from inv b have so: "sorted_wrt (<) (map fst (pairs lb))"
      and sy: "sync_pairs (pairs lb) (pairs pb) (sequence pb)"
      by (auto simp: locks_inv_iff)
    have "fst (apply_op op s) \<noteq> None"
      using OpLockAdd r by simp
    then have q: "unat (sequence pb) + 1 < 2 ^ 64"
      using nowrap b by (simp add: seq_of_def)
    note u = unat_succ [OF q]
    have "locks_inv (snd (LockAdd p ow t s))"
      unfolding r locks_inv_iff
      using sync_put [OF sy absent u(2) m] sorted_put_pair [OF so] by simp
    then show ?thesis
      using OpLockAdd r m u(1) b by (simp add: seq_of_def)
  qed
qed

text \<open>
  Along a sequence of calls that creates fewer than \<open>2^64\<close> locks, counted from the value
  of the counter, the invariant is kept and the ids created ascend strictly.
\<close>

lemma run_ops_inv:
  "locks_inv s \<Longrightarrow> seq_of s + length (fst (run_ops ops s)) < 2 ^ 64 \<Longrightarrow>
   locks_inv (snd (run_ops ops s)) \<and>
   seq_of s \<le> seq_of (snd (run_ops ops s)) \<and>
   sorted_wrt (<) (fst (run_ops ops s)) \<and>
   (\<forall>i\<in>set (fst (run_ops ops s)). seq_of s < unat i)"
proof (induction ops arbitrary: s)
  case Nil
  then show ?case by simp
next
  case (Cons op ops)
  obtain r s1 where a: "apply_op op s = (r, s1)" by (cases "apply_op op s")
  obtain ids s2 where b: "run_ops ops s1 = (ids, s2)" by (cases "run_ops ops s1")
  have len: "length (fst (run_ops (op # ops) s)) = (case r of None \<Rightarrow> 0 | Some i \<Rightarrow> 1) + length ids"
    using a b by (simp split: option.splits)
  have nw: "fst (apply_op op s) \<noteq> None \<Longrightarrow> seq_of s + 1 < 2 ^ 64"
    using Cons.prems(2) a len by (auto split: option.splits)
  have "locks_inv (snd (apply_op op s)) \<and>
         (case fst (apply_op op s) of
            None \<Rightarrow> seq_of (snd (apply_op op s)) = seq_of s
          | Some i \<Rightarrow> unat i = seq_of s + 1 \<and> seq_of (snd (apply_op op s)) = seq_of s + 1)"
    by (rule apply_op_inv [OF Cons.prems(1)]) (rule nw)
  with a have i1: "locks_inv s1"
    and sq: "case r of None \<Rightarrow> seq_of s1 = seq_of s
             | Some i \<Rightarrow> unat i = seq_of s + 1 \<and> seq_of s1 = seq_of s + 1"
    by (simp_all split: option.splits)
  have le: "seq_of s \<le> seq_of s1"
    using sq by (cases r; simp)
  have "seq_of s1 + length ids < 2 ^ 64"
    using Cons.prems(2) len sq by (cases r; simp)
  then have "seq_of s1 + length (fst (run_ops ops s1)) < 2 ^ 64"
    using b by simp
  from Cons.IH [OF i1 this] b
  have ih: "locks_inv s2" "seq_of s1 \<le> seq_of s2" "sorted_wrt (<) ids"
    "\<forall>i\<in>set ids. seq_of s1 < unat i"
    by simp_all
  show ?case
  proof (cases r)
    case None
    then show ?thesis using a b ih le by auto
  next
    case (Some i)
    then have "unat i = seq_of s + 1" "seq_of s1 = seq_of s + 1" using sq by simp_all
    then have "\<forall>j\<in>set ids. i < j"
      using ih(4) by (auto simp: word_less_nat_alt)
    then show ?thesis
      using a b ih le Some \<open>unat i = seq_of s + 1\<close> by auto
  qed
qed

lemma NewMetaStore_inv: "locks_inv NewMetaStore" "seq_of NewMetaStore = 0"
  by (simp_all add: locks_inv_def locks_in_sync_def NewMetaStore_def empty_bucket_def seq_of_def)

lemma inv_one_lock_per_path:
  assumes "locks_inv s"
  shows "one_lock_per_path s"
proof -
  from assms obtain lb pb where b: "locksBucket s = Some lb" "lockPathsBucket s = Some pb"
    and so: "sorted_wrt (<) (map fst (pairs lb))"
    and sy: "sync_pairs (pairs lb) (pairs pb) (sequence pb)"
    by (auto simp: locks_inv_iff)
  let ?ls = "decoded (pairs lb)"
  have "list_all (\<lambda>kv. case snd kv of Gob l \<Rightarrow> fst kv = itob (ID l) | Junk bs \<Rightarrow> False) (pairs lb)"
    using sy by (fastforce simp: sync_pairs_def list_all_iff)
  then have ps: "pairs lb = map lock_pair ?ls"
    by (rule wf_pairs_decoded)
  have "sorted_wrt (<) (map ID ?ls)"
    using so ps sorted_ids by metis
  then have "distinct (map ID ?ls)"
    by (simp add: strict_sorted_iff)
  then have d: "distinct ?ls"
    by (simp add: distinct_map)
  have "inj_on Path (set ?ls)"
  proof (rule inj_onI)
    fix l1 l2
    assume l: "l1 \<in> set ?ls" "l2 \<in> set ?ls" and e: "Path l1 = Path l2"
    have "lock_pair l1 \<in> set (pairs lb)" "lock_pair l2 \<in> set (pairs lb)"
      using l ps by (metis imageI set_map)+
    then have "map_of (pairs pb) (Path l1) = Some (Gob l1)"
      "map_of (pairs pb) (Path l2) = Some (Gob l2)"
      using sy by (fastforce simp: sync_pairs_def lock_pair_def)+
    with e have "Some (Gob l1) = Some (Gob l2)" by metis
    then show "l1 = l2" by simp
  qed
  with d have "distinct (map Path ?ls)"
    by (simp add: distinct_map)
  then show ?thesis
    using b by (simp add: one_lock_per_path_def)
qed

lemma inv_in_sync: "locks_inv s \<Longrightarrow> locks_in_sync s"
  by (auto simp: locks_inv_def split: option.splits)

section \<open>When the sequence counter wraps around\<close>

lemma run_ops_append:
  "run_ops (xs @ ys) s =
     (fst (run_ops xs s) @ fst (run_ops ys (snd (run_ops xs s))),
      snd (run_ops ys (snd (run_ops xs s))))"
  by (induction xs arbitrary: s) (auto split: prod.splits option.splits)

lemma first_add: "run_ops [OpLockAdd ''/a'' ''alice'' ''t''] NewMetaStore = ([1], store_a 1)"
  by (simp add: store_a_def lock_a_def lock_pair_def eval_defs)

lemma round_step:
  assumes "of_nat k + (2 :: 64 word) \<noteq> 1"
  shows "run_ops (churn_round k) (store_a (of_nat k + 1)) = ([of_nat k + 2], store_a (of_nat k + 2))"
proof -
  have e: "of_nat k + (1 :: 64 word) + 1 = of_nat k + 2" by simp
  show ?thesis
    using assms
    by (simp add: churn_round_def store_a_def lock_a_def lock_pair_def eval_defs e)
qed

text \<open>Each round draws one id and leaves the store as it was, but for the counter.\<close>

lemma churn_run:
  "n \<le> wrap_count \<Longrightarrow> snd (run_ops (churn_ops n) (store_a 1)) = store_a (of_nat n + 1)"
proof (induction n)
  case 0
  show ?case by (simp add: churn_ops_def)
next
  case (Suc n)
  have "Suc n < 2 ^ 64"
    using Suc.prems by (simp add: wrap_count_def)
  then have "unat (of_nat (Suc n) :: 64 word) = Suc n"
    by (simp add: unat_of_nat del: of_nat_Suc)
  then have "of_nat (Suc n) \<noteq> (0 :: 64 word)"
    by (metis unat_0 nat.distinct(1))
  then have "of_nat n + (1 :: 64 word) \<noteq> 0"
    by (simp add: add.commute)
  have ne: "of_nat n + (2 :: 64 word) \<noteq> 1"
  proof
    assume "of_nat n + (2 :: 64 word) = 1"
    then have "(of_nat n + 1) + (1 :: 64 word) = 0 + 1" by simp
    then have "of_nat n + (1 :: 64 word) = 0" by (rule add_right_imp_eq)
    with \<open>of_nat n + (1 :: 64 word) \<noteq> 0\<close> show False by (rule notE)
  qed
  have ops: "churn_ops (Suc n) = churn_ops n @ churn_round n"
    by (simp add: churn_ops_def)
  have ih: "snd (run_ops (churn_ops n) (store_a 1)) = store_a (of_nat n + 1)"
    using Suc by simp
  have w: "of_nat (Suc n) + (1 :: 64 word) = of_nat n + 2"
    by simp
  have "snd (run_ops (churn_ops (Suc n)) (store_a 1)) =
      snd (run_ops (churn_round n) (snd (run_ops (churn_ops n) (store_a 1))))"
    unfolding ops run_ops_append by simp
  also have "\<dots> = store_a (of_nat n + 2)"
    unfolding ih round_step [OF ne] by simp
  finally show ?case
    unfolding w .
qed

lemma wrap_count_word: "of_nat wrap_count + (1 :: 64 word) = 0"
  by (simp add: wrap_count_def)

lemma churn_end: "snd (run_ops (churn_ops wrap_count) (store_a 1)) = store_a 0"
proof -
  have "snd (run_ops (churn_ops wrap_count) (store_a 1)) = store_a (of_nat wrap_count + 1)"
    by (rule churn_run) (rule order_refl)
  then show ?thesis
    unfolding wrap_count_word .
qed

lemma last_add:
  "run_ops [OpLockAdd ''/b'' ''bob'' ''t''] (store_a 0) = ([1], store_wrapped)"
  by (simp add: store_a_def store_wrapped_def lock_a_def lock_b_def lock_pair_def eval_defs)

lemma wrap_run:
  "run_ops wrap_ops NewMetaStore =
     (1 # fst (run_ops (churn_ops wrap_count) (store_a 1)) @ [1], store_wrapped)"
proof -
  have w: "wrap_ops = [OpLockAdd ''/a'' ''alice'' ''t''] @
      (churn_ops wrap_count @ [OpLockAdd ''/b'' ''bob'' ''t''])"
    by (simp add: wrap_ops_def)
  have r2: "run_ops (churn_ops wrap_count @ [OpLockAdd ''/b'' ''bob'' ''t'']) (store_a 1) =
      (fst (run_ops (churn_ops wrap_count) (store_a 1)) @ [1], store_wrapped)"
    unfolding run_ops_append [of "churn_ops wrap_count"] churn_end last_add by simp
  have "run_ops wrap_ops NewMetaStore =
      (fst (run_ops [OpLockAdd ''/a'' ''alice'' ''t''] NewMetaStore) @
         fst (run_ops (churn_ops wrap_count @ [OpLockAdd ''/b'' ''bob'' ''t''])
                (snd (run_ops [OpLockAdd ''/a'' ''alice'' ''t''] NewMetaStore))),
       snd (run_ops (churn_ops wrap_count @ [OpLockAdd ''/b'' ''bob'' ''t''])
              (snd (run_ops [OpLockAdd ''/a'' ''alice'' ''t''] NewMetaStore))))"
    unfolding w by (rule run_ops_append)
  then show ?thesis
    unfolding first_add fst_conv snd_conv r2 by simp
qed

lemma test_run: "run_ops test_ops NewMetaStore = ([1, 2, 3], store_after_test)"
  by (simp add: test_ops_def store_after_test_def lock_pair_def eval_defs)

text \<open>
  C1, as the claim states it, fails once the counter has wrapped around: the last
  \<open>LockAdd\<close> of \<open>wrap_ops\<close> draws the id 1 again and overwrites the lock on \<open>/a\<close> in the
  id-indexed bucket, while the path-indexed bucket still holds it under \<open>/a\<close>.
\<close>

theorem locks_out_of_sync_counterexample:
  "snd (run_ops wrap_ops NewMetaStore) = store_wrapped \<and>
   \<not> locks_in_sync (snd (run_ops wrap_ops NewMetaStore))"
proof -
  have "\<not> locks_in_sync store_wrapped"
    by (simp add: locks_in_sync_def store_wrapped_def lock_a_def lock_b_def lock_pair_def
        bucket_Get_def NewMetaStore_def)
  then show ?thesis
    unfolding wrap_run by simp
qed

text \<open>
  C1, amended: after every sequence of \<open>LockAdd\<close> and \<open>LockDelete\<close> calls on a fresh store
  that has created fewer than \<open>2^64\<close> locks, a lock is in the id-indexed bucket if and only
  if the same payload is in the path-indexed bucket under its path, and no two stored
  locks have the same path.
\<close>

theorem locks_stay_in_sync:
  assumes "length (fst (run_ops ops NewMetaStore)) < 2 ^ 64"
  shows "locks_in_sync (snd (run_ops ops NewMetaStore)) \<and>
         one_lock_per_path (snd (run_ops ops NewMetaStore))"
proof -
  have "locks_inv (snd (run_ops ops NewMetaStore))"
    using run_ops_inv [of NewMetaStore ops] assms NewMetaStore_inv by simp
  then show ?thesis
    by (simp add: inv_in_sync inv_one_lock_per_path)
qed

theorem locks_stay_in_sync_witness:
  "length (fst (run_ops test_ops NewMetaStore)) < 2 ^ 64 \<and>
   snd (run_ops test_ops NewMetaStore) = store_after_test \<and>
   locks_in_sync store_after_test \<and> one_lock_per_path store_after_test"
proof -
  have h: "length (fst (run_ops test_ops NewMetaStore)) < 2 ^ 64"
    by (simp add: test_run)
  show ?thesis
    using h locks_stay_in_sync [OF h] by (simp add: test_run)
qed

text \<open>
  C3, as the claim states it, fails once the counter has wrapped around: the first
  \<open>LockAdd\<close> of \<open>wrap_ops\<close> is given the id 1, and so is the last.
\<close>

theorem lock_id_reused_counterexample:
  "fst (run_ops [OpLockAdd ''/a'' ''alice'' ''t''] NewMetaStore) = [1] \<and>
   last (fst (run_ops wrap_ops NewMetaStore)) = 1 \<and>
   \<not> distinct (fst (run_ops wrap_ops NewMetaStore)) \<and>
   \<not> sorted_wrt (<) (fst (run_ops wrap_ops NewMetaStore))"
proof -
  have "fst (run_ops [OpLockAdd ''/a'' ''alice'' ''t''] NewMetaStore) = [1]"
    unfolding first_add by simp
  then show ?thesis
    unfolding wrap_run by simp
qed

text \<open>
  C3, amended: along every sequence of \<open>LockAdd\<close> and \<open>LockDelete\<close> calls on a fresh store
  that creates fewer than \<open>2^64\<close> locks, each lock created receives an id strictly greater
  than every id assigned before it, and no id is assigned twice.
\<close>

theorem lock_ids_increase:
  assumes "length (fst (run_ops ops NewMetaStore)) < 2 ^ 64"
  shows "sorted_wrt (<) (fst (run_ops ops NewMetaStore)) \<and>
         distinct (fst (run_ops ops NewMetaStore))"
proof -
  have "sorted_wrt (<) (fst (run_ops ops NewMetaStore))"
    using run_ops_inv [of NewMetaStore ops] assms NewMetaStore_inv by simp
  then show ?thesis
    by (simp add: strict_sorted_iff)
qed

theorem lock_ids_increase_witness:
  "length (fst (run_ops test_ops NewMetaStore)) < 2 ^ 64 \<and>
   fst (run_ops test_ops NewMetaStore) = [1, 2, 3] \<and>
   sorted_wrt (<) [1, 2, 3 :: 64 word] \<and> distinct [1, 2, 3 :: 64 word]"
proof -
  have h: "length (fst (run_ops test_ops NewMetaStore)) < 2 ^ 64"
    by (simp add: test_run)
  show ?thesis
    using h lock_ids_increase [OF h] by (simp add: test_run)
qed

section \<open>The stores that the lock operations reach are well formed\<close>

text \<open>
  The hypothesis of the theorems on \<open>LockList\<close>, a well-formed id-indexed bucket, holds after
  every sequence of \<open>LockAdd\<close> and \<open>LockDelete\<close> calls on a fresh store, whatever its length.
\<close>

lemma locks_wf_put:
  assumes "locks_wf lb" and "ID m = i"
  shows "locks_wf (lb\<lparr>pairs := put_pair (itob i) (Gob m) (pairs lb)\<rparr>)"
proof -
  have "\<forall>kv\<in>set (put_pair (itob i) (Gob m) (pairs lb)). kv = (itob i, Gob m) \<or> kv \<in> set (pairs lb)"
    using set_put_pair [of "itob i" "Gob m" "pairs lb"] by auto
  then show ?thesis
    using assms sorted_put_pair [of "pairs lb" "itob i" "Gob m"]
    by (auto simp: locks_wf_def list_all_iff)
qed

lemma locks_wf_delete: "locks_wf lb \<Longrightarrow> locks_wf (bucket_Delete lb k)"
  using sorted_filter_pairs [of "pairs lb" "\<lambda>kv. fst kv \<noteq> k"]
  by (auto simp: locks_wf_def bucket_Delete_def list_all_iff)

lemma LockAdd_ok_form:
  assumes "locksBucket s = Some lb" and "snd (fst (LockAdd p ow t s)) = None"
  shows "\<exists>pb. lockPathsBucket s = Some pb \<and>
     locksBucket (snd (LockAdd p ow t s)) =
       Some (lb\<lparr>pairs := put_pair (itob (sequence pb + 1))
               (Gob \<lparr>ID = sequence pb + 1, Path = p, Owner = ow, LockedAt = t\<rparr>) (pairs lb)\<rparr>)"
  using assms
  by (auto simp: LockAdd_def LockAdd_tx_def db_Update_def bucket_NextSequence_def Let_def
      bucket_Put_def split: option.splits if_splits)

lemma LockAdd_keeps_wf:
  assumes "\<exists>lb. locksBucket s = Some lb \<and> locks_wf lb"
  shows "\<exists>lb. locksBucket (snd (LockAdd p ow t s)) = Some lb \<and> locks_wf lb"
proof -
  from assms obtain lb where lb: "locksBucket s = Some lb" "locks_wf lb" by blast
  show ?thesis
  proof (cases "snd (fst (LockAdd p ow t s))")
    case (Some e)
    then have "LockAdd p ow t s = ((fst (fst (LockAdd p ow t s)), Some e), snd (LockAdd p ow t s))"
      by (metis prod.collapse)
    then have "snd (LockAdd p ow t s) = s"
      by (rule LockAdd_failure_unchanged)
    then show ?thesis using lb by simp
  next
    case None
    from LockAdd_ok_form [OF lb(1) None] obtain pb :: "MetaLock gob bucket" where
      "locksBucket (snd (LockAdd p ow t s)) =
       Some (lb\<lparr>pairs := put_pair (itob (sequence pb + 1))
               (Gob \<lparr>ID = sequence pb + 1, Path = p, Owner = ow, LockedAt = t\<rparr>) (pairs lb)\<rparr>)"
      by blast
    then show ?thesis
      using locks_wf_put [OF lb(2), of "\<lparr>ID = sequence pb + 1, Path = p, Owner = ow, LockedAt = t\<rparr>"
          "sequence pb + 1"]
      by simp
  qed
qed

lemma LockDelete_keeps_wf:
  assumes "\<exists>lb. locksBucket s = Some lb \<and> locks_wf lb"
  shows "\<exists>lb. locksBucket (snd (LockDelete i ow f s)) = Some lb \<and> locks_wf lb"
proof -
  from assms obtain lb where lb: "locksBucket s = Some lb" "locks_wf lb" by blast
  have "snd (LockDelete i ow f s) = s \<or>
      locksBucket (snd (LockDelete i ow f s)) = Some (bucket_Delete lb (itob i))"
    using lb(1)
    by (auto simp: LockDelete_def LockDelete_tx_def db_Update_def Let_def
        split: option.splits if_splits sum.splits)
  then show ?thesis
    using lb locks_wf_delete by auto
qed

lemma run_ops_keeps_wf:
  "\<exists>lb. locksBucket s = Some lb \<and> locks_wf lb \<Longrightarrow>
   \<exists>lb. locksBucket (snd (run_ops ops s)) = Some lb \<and> locks_wf lb"
proof (induction ops arbitrary: s)
  case Nil
  then show ?case by simp
next
  case (Cons op ops)
  have "\<exists>lb. locksBucket (snd (apply_op op s)) = Some lb \<and> locks_wf lb"
  proof (cases op)
    case (OpLockAdd p ow t)
    have "snd (apply_op op s) = snd (LockAdd p ow t s)"
      using OpLockAdd by (auto split: prod.splits option.splits)
    then show ?thesis using LockAdd_keeps_wf [OF Cons.prems] by simp
  next
    case (OpLockDelete i ow f)
    then show ?thesis using LockDelete_keeps_wf [OF Cons.prems] by simp
  qed
  from Cons.IH [OF this] show ?case
    by (auto split: prod.splits)
qed

lemma reachable_locks_wf:
  "\<exists>lb. locksBucket (snd (run_ops ops NewMetaStore)) = Some lb \<and> locks_wf lb"
  by (rule run_ops_keeps_wf) (simp add: NewMetaStore_def empty_bucket_def locks_wf_def)

end
